theory Spec2Isabelle
  imports Main "HOL-Library.Word" "HOL-Library.Multiset"
begin

unbundle bit_operations_syntax

section \<open>The game state of solver.hpp\<close>

text \<open>
  The board is \<open>boardSize * boardSize\<close> with \<open>boardSize = 7\<close>. A \<open>Status\<close> packs the
  board into \<open>storagesNeeded = 2\<close> machine words of \<open>bitsPerStorage = 64\<close> bits, two bits
  per cell, and keeps the side to move in the top bit of the last word. Indices and
  coordinates are \<open>uint32_t\<close> in the source; every index expression of the source is
  guarded so that it neither underflows nor leaves \<open>0..48\<close>, so they are natural numbers
  here. \<open>Score\<close> is \<open>int32_t\<close>; the counts stay within \<open>0..49\<close> on every state whose
  counts match its cells, so scores are integers here.
\<close>

abbreviation boardSize :: nat where
  "boardSize \<equiv> 7"

abbreviation bitsPerStorage :: nat where
  "bitsPerStorage \<equiv> 64"

type_synonym Score = int

type_synonym Storage = "64 word"

text \<open>
  \<open>enum class Entry { Empty = 0, White = 1, Black = 2 }\<close>. Two bits can also hold the
  value 3, which \<open>static_cast<Entry>\<close> turns into an \<open>Entry\<close> that is none of the three
  enumerators (the source's "unused fourth value"): \<open>Unused\<close>.
\<close>

datatype Entry = Empty | White | Black | Unused

definition toStorage :: "Entry \<Rightarrow> Storage" where
  "toStorage e = (case e of Empty \<Rightarrow> 0 | White \<Rightarrow> 1 | Black \<Rightarrow> 2 | Unused \<Rightarrow> 3)"

definition toEntry :: "Storage \<Rightarrow> Entry" where
  "toEntry w = (if w = 0 then Empty else if w = 1 then White else if w = 2 then Black else Unused)"

definition upperLimitMoves :: nat where
  "upperLimitMoves = boardSize * boardSize + boardSize * boardSize * 16"

record Status =
  storages :: "Storage \<times> Storage"
  whiteScore :: Score
  blackScore :: Score

text \<open>\<open>storages_[index]\<close> read and written; the array has exactly two elements.\<close>

definition storageAt :: "Storage \<times> Storage \<Rightarrow> nat \<Rightarrow> Storage" where
  "storageAt st index = (if index = 0 then fst st else snd st)"

definition storagePut :: "Storage \<times> Storage \<Rightarrow> nat \<Rightarrow> Storage \<Rightarrow> Storage \<times> Storage" where
  "storagePut st index w = (if index = 0 then (w, snd st) else (fst st, w))"

text \<open>The default constructor: all bits zero, both counts zero.\<close>

definition Status0 :: Status where
  "Status0 = \<lparr>storages = (0, 0), whiteScore = 0, blackScore = 0\<rparr>"

definition whiteMoves :: "Status \<Rightarrow> bool" where
  "whiteMoves s = (snd (storages s) AND push_bit (bitsPerStorage - 1) 1 = 0)"

definition blackMoves :: "Status \<Rightarrow> bool" where
  "blackMoves s = (snd (storages s) AND push_bit (bitsPerStorage - 1) 1 \<noteq> 0)"

definition movingPlayer :: "Status \<Rightarrow> Entry" where
  "movingPlayer s = (if whiteMoves s then White else Black)"

definition switchPlayerTurn :: "Status \<Rightarrow> Status" where
  "switchPlayerTurn s =
     s\<lparr>storages := (fst (storages s), snd (storages s) XOR push_bit (bitsPerStorage - 1) 1)\<rparr>"

text \<open>\<open>operator[]\<close>; the source asserts \<open>pos < boardSize * boardSize\<close>.\<close>

definition get :: "Status \<Rightarrow> nat \<Rightarrow> Entry" where
  "get s pos =
     (let p = pos * 2;
          index = p div bitsPerStorage;
          relPos = p - index * bitsPerStorage;
          bitmask = push_bit relPos (3 :: Storage)
      in toEntry (drop_bit relPos (storageAt (storages s) index AND bitmask)))"

definition setNoScoreAdjust :: "Status \<Rightarrow> nat \<Rightarrow> Entry \<Rightarrow> Status" where
  "setNoScoreAdjust s pos v =
     (let p = pos * 2;
          index = p div bitsPerStorage;
          relPos = p - index * bitsPerStorage;
          bitmask = push_bit relPos (3 :: Storage);
          w1 = storageAt (storages s) index AND NOT bitmask;
          w2 = w1 OR push_bit relPos (toStorage v)
      in s\<lparr>storages := storagePut (storages s) index w2\<rparr>)"

text \<open>\<open>Status::set\<close> (renamed: \<open>set\<close> is the set of a list in HOL).\<close>

definition setEntry :: "Status \<Rightarrow> nat \<Rightarrow> Entry \<Rightarrow> Status" where
  "setEntry s pos val =
     (let v = get s pos in
      if v = val then s
      else
        let s1 = (if v = White then s\<lparr>whiteScore := whiteScore s - 1\<rparr>
                  else if v = Black then s\<lparr>blackScore := blackScore s - 1\<rparr>
                  else s);
            s2 = (if val = White then s1\<lparr>whiteScore := whiteScore s1 + 1\<rparr>
                  else if val = Black then s1\<lparr>blackScore := blackScore s1 + 1\<rparr>
                  else s1)
        in setNoScoreAdjust s2 pos val)"

text \<open>
  \<open>Status::spawn\<close>; the source asserts \<open>i < boardSize\<close> and \<open>j < boardSize\<close>. Each of
  the eight neighbour blocks is guarded as in the source, so no index expression is
  evaluated where it would underflow.
\<close>

definition spawn :: "Status \<Rightarrow> nat \<Rightarrow> nat \<Rightarrow> Status" where
  "spawn s i j =
     (let cp = movingPlayer s;
          s1 = setNoScoreAdjust s (i * boardSize + j) cp;
          s2 = (if whiteMoves s1 then s1\<lparr>whiteScore := whiteScore s1 + 1\<rparr>
                else s1\<lparr>blackScore := blackScore s1 + 1\<rparr>);
          s3 = switchPlayerTurn s2;
          np = movingPlayer s3;
          s4 = (if i > 0 then
                  (let a = (if j > 0 \<and> get s3 ((i - 1) * boardSize + j - 1) = np
                            then setEntry s3 ((i - 1) * boardSize + j - 1) cp else s3);
                       b = (if get a ((i - 1) * boardSize + j) = np
                            then setEntry a ((i - 1) * boardSize + j) cp else a);
                       c = (if j < boardSize - 1 \<and> get b ((i - 1) * boardSize + j + 1) = np
                            then setEntry b ((i - 1) * boardSize + j + 1) cp else b)
                   in c)
                else s3);
          s5 = (if j > 0 \<and> get s4 (i * boardSize + j - 1) = np
                then setEntry s4 (i * boardSize + j - 1) cp else s4);
          s6 = (if j < boardSize - 1 \<and> get s5 (i * boardSize + j + 1) = np
                then setEntry s5 (i * boardSize + j + 1) cp else s5);
          s7 = (if i < boardSize - 1 then
                  (let a = (if j > 0 \<and> get s6 ((i + 1) * boardSize + j - 1) = np
                            then setEntry s6 ((i + 1) * boardSize + j - 1) cp else s6);
                       b = (if get a ((i + 1) * boardSize + j) = np
                            then setEntry a ((i + 1) * boardSize + j) cp else a);
                       c = (if j < boardSize - 1 \<and> get b ((i + 1) * boardSize + j + 1) = np
                            then setEntry b ((i + 1) * boardSize + j + 1) cp else b)
                   in c)
                else s6)
      in s7)"

text \<open>
  \<open>Status::score\<close> as compiled with \<open>NDEBUG\<close>. Without \<open>NDEBUG\<close> the function first
  recounts the cells and asserts that the recount equals the two cached counts:
  \<open>recount\<close> is that loop and \<open>scoreAssertsHold\<close> the two assertions. The test
  \<open>whiteScore_ + blackScore_ == boardSize * boardSize\<close> compares the \<open>int32_t\<close> sum with an
  unsigned 49 after conversion to unsigned, which for a sum in the range of \<open>int32_t\<close> is
  equality with 49. When that test succeeds and neither count exceeds the other, control
  falls through to the final \<open>return\<close>.
\<close>

definition score :: "Status \<Rightarrow> Score" where
  "score s =
     (if blackScore s = 0 then int (boardSize * boardSize)
      else if whiteScore s = 0 then - int (boardSize * boardSize)
      else if whiteScore s + blackScore s = int (boardSize * boardSize) then
        (if whiteScore s > blackScore s then int (boardSize * boardSize)
         else if blackScore s > whiteScore s then - int (boardSize * boardSize)
         else whiteScore s - blackScore s)
      else whiteScore s - blackScore s)"

definition recount :: "Status \<Rightarrow> Score \<times> Score" where
  "recount s =
     fold (\<lambda>i (w, b).
             let v = get s i in
             if v = Black then (w, b + 1)
             else if v = White then (w + 1, b)
             else (w, b))
          [0..<boardSize * boardSize] (0, 0)"

definition scoreAssertsHold :: "Status \<Rightarrow> bool" where
  "scoreAssertsHold s = (fst (recount s) = whiteScore s \<and> snd (recount s) = blackScore s)"

section \<open>Move generation\<close>

text \<open>
  \<open>generateStatuses\<close> writes through an output iterator and counts what it wrote. The
  pair \<open>(num, written)\<close> is the counter and the statuses written so far, in order. The
  block that the source repeats after each successful test,
  \<open>*output = copy; ++output; ++num;\<close>, is \<open>emit\<close>; the copy is \<open>spawn start i j\<close> for a
  spawn and \<open>spawn (setEntry start src Empty) i j\<close> for a jump from \<open>src\<close>
  (\<open>copy.set(src)\<close> has the default value \<open>Entry::Empty\<close>).
\<close>

type_synonym Output = "nat \<times> Status list"

definition emit :: "Status \<Rightarrow> Output \<Rightarrow> Output" where
  "emit copy out = (fst out + 1, snd out @ [copy])"

definition jumpCopy :: "Status \<Rightarrow> nat \<Rightarrow> nat \<Rightarrow> nat \<Rightarrow> Status" where
  "jumpCopy start src i j = spawn (setEntry start src Empty) i j"

text \<open>The body of the two nested loops, for one cell \<open>(i, j)\<close>.\<close>

definition cellStatuses :: "Status \<Rightarrow> nat \<Rightarrow> nat \<Rightarrow> Output \<Rightarrow> Output" where
  "cellStatuses start i j out0 =
     (let mp = movingPlayer start in
      if get start (i * boardSize + j) \<noteq> Empty then out0
      else
        let out1 =
              (if (i > 0 \<and>
                     (get start ((i - 1) * boardSize + j) = mp \<or>
                      (j > 0 \<and> get start ((i - 1) * boardSize + j - 1) = mp) \<or>
                      (j < boardSize - 1 \<and> get start ((i - 1) * boardSize + j + 1) = mp))) \<or>
                  ((j > 0 \<and> get start (i * boardSize + j - 1) = mp) \<or>
                   (j < boardSize - 1 \<and> get start (i * boardSize + j + 1) = mp)) \<or>
                  (i < boardSize - 1 \<and>
                     (get start ((i + 1) * boardSize + j) = mp \<or>
                      (j > 0 \<and> get start ((i + 1) * boardSize + j - 1) = mp) \<or>
                      (j < boardSize - 1 \<and> get start ((i + 1) * boardSize + j + 1) = mp)))
               then emit (spawn start i j) out0 else out0);
            out2 =
              (if i > 1 then
                 (let a =
                        (if j > 0 then
                           (let a1 = (if j > 1 \<and> get start ((i - 2) * boardSize + j - 2) = mp
                                      then emit (jumpCopy start ((i - 2) * boardSize + j - 2) i j) out1
                                      else out1);
                                a2 = (if get start ((i - 2) * boardSize + j - 1) = mp
                                      then emit (jumpCopy start ((i - 2) * boardSize + j - 1) i j) a1
                                      else a1)
                            in a2)
                         else out1);
                      b = (if get start ((i - 2) * boardSize + j) = mp
                           then emit (jumpCopy start ((i - 2) * boardSize + j) i j) a else a);
                      c =
                        (if j < boardSize - 1 then
                           (let c1 = (if get start ((i - 2) * boardSize + j + 1) = mp
                                      then emit (jumpCopy start ((i - 2) * boardSize + j + 1) i j) b
                                      else b);
                                c2 = (if j < boardSize - 2 \<and> get start ((i - 2) * boardSize + j + 2) = mp
                                      then emit (jumpCopy start ((i - 2) * boardSize + j + 2) i j) c1
                                      else c1)
                            in c2)
                         else b)
                  in c)
               else out1);
            out3 =
              (if i > 0 then
                 (let a = (if j > 1 \<and> get start ((i - 1) * boardSize + j - 2) = mp
                           then emit (jumpCopy start ((i - 1) * boardSize + j - 2) i j) out2
                           else out2);
                      b = (if j < boardSize - 2 \<and> get start ((i - 1) * boardSize + j + 2) = mp
                           then emit (jumpCopy start ((i - 1) * boardSize + j + 2) i j) a
                           else a)
                  in b)
               else out2);
            out4 = (if j > 1 \<and> get start (i * boardSize + j - 2) = mp
                    then emit (jumpCopy start (i * boardSize + j - 2) i j) out3 else out3);
            out5 = (if j < boardSize - 2 \<and> get start (i * boardSize + j + 2) = mp
                    then emit (jumpCopy start (i * boardSize + j + 2) i j) out4 else out4);
            out6 =
              (if i < boardSize - 1 then
                 (let a = (if j > 1 \<and> get start ((i + 1) * boardSize + j - 2) = mp
                           then emit (jumpCopy start ((i + 1) * boardSize + j - 2) i j) out5
                           else out5);
                      b = (if j < boardSize - 2 \<and> get start ((i + 1) * boardSize + j + 2) = mp
                           then emit (jumpCopy start ((i + 1) * boardSize + j + 2) i j) a
                           else a)
                  in b)
               else out5);
            out7 =
              (if i < boardSize - 2 then
                 (let a =
                        (if j > 0 then
                           (let a1 = (if j > 1 \<and> get start ((i + 2) * boardSize + j - 2) = mp
                                      then emit (jumpCopy start ((i + 2) * boardSize + j - 2) i j) out6
                                      else out6);
                                a2 = (if get start ((i + 2) * boardSize + j - 1) = mp
                                      then emit (jumpCopy start ((i + 2) * boardSize + j - 1) i j) a1
                                      else a1)
                            in a2)
                         else out6);
                      b = (if get start ((i + 2) * boardSize + j) = mp
                           then emit (jumpCopy start ((i + 2) * boardSize + j) i j) a else a);
                      c =
                        (if j < boardSize - 1 then
                           (let c1 = (if get start ((i + 2) * boardSize + j + 1) = mp
                                      then emit (jumpCopy start ((i + 2) * boardSize + j + 1) i j) b
                                      else b);
                                c2 = (if j < boardSize - 2 \<and> get start ((i + 2) * boardSize + j + 2) = mp
                                      then emit (jumpCopy start ((i + 2) * boardSize + j + 2) i j) c1
                                      else c1)
                            in c2)
                         else b)
                  in c)
               else out6)
        in out7)"

text \<open>The two \<open>for\<close> loops over \<open>i\<close> and \<open>j\<close>, starting from \<open>num = 0\<close> and an empty output.\<close>

definition generateStatuses :: "Status \<Rightarrow> Output" where
  "generateStatuses start =
     fold (\<lambda>i out. fold (\<lambda>j out'. cellStatuses start i j out') [0..<boardSize] out)
          [0..<boardSize] (0, [])"

section \<open>The search\<close>

text \<open>
  \<open>minimax<depth>(status, nextStatus, level, alpha, beta)\<close>. The template parameter
  \<open>depth\<close> is an argument. \<open>wantNext\<close> says that \<open>nextStatus\<close> is not \<open>nullptr\<close>; the
  second component of the result is the status written through it (\<open>None\<close>: nothing was
  written). \<open>std::sort\<close> is the standard library's: it is the argument \<open>srt\<close>, called
  with the source's comparison \<open>pred\<close> on the \<open>len\<close> generated statuses. \<open>descend\<close> is
  the \<open>for\<close> loop over the moves, on the moves not yet visited; \<open>i\<close> is the loop index.
\<close>

type_synonym Sorter = "(Status \<Rightarrow> Status \<Rightarrow> bool) \<Rightarrow> Status list \<Rightarrow> Status list"

definition pred :: "bool \<Rightarrow> Status \<Rightarrow> Status \<Rightarrow> bool" where
  "pred maximizing lhs rhs =
     (if maximizing then score lhs > score rhs else score lhs < score rhs)"

function minimax :: "Sorter \<Rightarrow> nat \<Rightarrow> Status \<Rightarrow> bool \<Rightarrow> nat \<Rightarrow> Score \<Rightarrow> Score \<Rightarrow> Score \<times> Status option"
  and descend :: "Sorter \<Rightarrow> nat \<Rightarrow> nat \<Rightarrow> bool \<Rightarrow> Status list \<Rightarrow> nat \<Rightarrow> Score \<Rightarrow> Score \<Rightarrow> Score \<Rightarrow> nat \<Rightarrow> Score \<times> nat"
where
  "minimax srt depth status wantNext level alpha beta =
     (if level = 0 then (score status, None)
      else
        let len = fst (generateStatuses status);
            moves = snd (generateStatuses status)
        in if len = 0 then
             (score status, if wantNext then Some (switchPlayerTurn status) else None)
           else
             let maximizing = whiteMoves status;
                 moves' = (if level \<noteq> depth then srt (pred maximizing) moves else moves);
                 newScore = (if maximizing then - int (boardSize * boardSize)
                             else int (boardSize * boardSize));
                 r = descend srt depth level maximizing moves' 0 alpha beta newScore 0
             in (fst r, if wantNext then Some (moves' ! snd r) else None))"
| "descend srt depth level maximizing [] i alpha beta newScore newIndex = (newScore, newIndex)"
| "descend srt depth level maximizing (m # rest) i alpha beta newScore newIndex =
     (let result = fst (minimax srt depth m False (level - 1) alpha beta) in
      if maximizing then
        (let newScore' = (if result > newScore then result else newScore);
             newIndex' = (if result > newScore then i else newIndex);
             alpha' = (if result > alpha then result else alpha)
         in if beta \<le> alpha' then (newScore', newIndex')
            else descend srt depth level maximizing rest (i + 1) alpha' beta newScore' newIndex')
      else
        (let newScore' = (if result < newScore then result else newScore);
             newIndex' = (if result < newScore then i else newIndex);
             beta' = (if result < beta then result else beta)
         in if beta' \<le> alpha then (newScore', newIndex')
            else descend srt depth level maximizing rest (i + 1) alpha beta' newScore' newIndex'))"
  by pat_completeness auto
termination
  by (relation "measures
        [\<lambda>x. case x of
            Inl (srt, depth, status, wantNext, level, alpha, beta) \<Rightarrow> 2 * level
          | Inr (srt, depth, level, maximizing, ms, i, alpha, beta, newScore, newIndex) \<Rightarrow>
              max 1 (2 * level - 1),
         \<lambda>x. case x of
            Inl (srt, depth, status, wantNext, level, alpha, beta) \<Rightarrow> 0
          | Inr (srt, depth, level, maximizing, ms, i, alpha, beta, newScore, newIndex) \<Rightarrow>
              length ms]")
     auto

text \<open>The assertion \<open>assert(len < moves.size())\<close> of \<open>minimax\<close>, on the status it is called with.\<close>

definition minimaxAssertHolds :: "Status \<Rightarrow> bool" where
  "minimaxAssertHolds status = (fst (generateStatuses status) < upperLimitMoves)"

text \<open>
  One admissible \<open>std::sort\<close>: insertion sort by the comparison. It stands for the
  library function wherever a concrete search is run.
\<close>

fun insertBy :: "('a \<Rightarrow> 'a \<Rightarrow> bool) \<Rightarrow> 'a \<Rightarrow> 'a list \<Rightarrow> 'a list" where
  "insertBy cmp x [] = [x]"
| "insertBy cmp x (y # ys) = (if cmp x y then x # y # ys else y # insertBy cmp x ys)"

definition insertionSort :: "('a \<Rightarrow> 'a \<Rightarrow> bool) \<Rightarrow> 'a list \<Rightarrow> 'a list" where
  "insertionSort cmp xs = foldr (insertBy cmp) xs []"

section \<open>The starting position of main.cpp\<close>

definition initial :: Status where
  "initial =
     setEntry
       (setEntry
          (setEntry
             (setEntry Status0 (0 * boardSize + 0) White)
             (0 * boardSize + boardSize - 1) Black)
          ((boardSize - 1) * boardSize + 0) Black)
       ((boardSize - 1) * boardSize + boardSize - 1) White"

section \<open>The notions of the specification\<close>

text \<open>
  The specification speaks of cells \<open>(i, j)\<close>, of their Chebyshev distance, of the number of
  cells holding a colour, of the legal successors of a state and of an exhaustive minimax.
  These definitions follow its words; the theorems below compare the code with them.
\<close>

definition chebyshev :: "nat \<Rightarrow> nat \<Rightarrow> nat \<Rightarrow> nat \<Rightarrow> nat" where
  "chebyshev i j i2 j2 =
     max (if i \<le> i2 then i2 - i else i - i2) (if j \<le> j2 then j2 - j else j - j2)"

definition boardCells :: "(nat \<times> nat) list" where
  "boardCells = concat (map (\<lambda>i. map (\<lambda>j. (i, j)) [0..<boardSize]) [0..<boardSize])"

definition cellIndex :: "nat \<times> nat \<Rightarrow> nat" where
  "cellIndex c = fst c * boardSize + snd c"

definition holds :: "Status \<Rightarrow> Entry \<Rightarrow> nat \<times> nat \<Rightarrow> bool" where
  "holds s e c = (get s (cellIndex c) = e)"

text \<open>The cells of the board at Chebyshev distance exactly \<open>d\<close> from \<open>(i, j)\<close>.\<close>

definition cellsAtDistance :: "nat \<Rightarrow> nat \<Rightarrow> nat \<Rightarrow> (nat \<times> nat) list" where
  "cellsAtDistance d i j = filter (\<lambda>c. chebyshev i j (fst c) (snd c) = d) boardCells"

definition otherPlayer :: "Status \<Rightarrow> Entry" where
  "otherPlayer s = (if whiteMoves s then Black else White)"

text \<open>The number of cells holding \<open>e\<close>, and the invariant that the two cached counts are
  the numbers of White and Black cells.\<close>

definition countCells :: "Status \<Rightarrow> Entry \<Rightarrow> nat" where
  "countCells s e = length (filter (\<lambda>pos. get s pos = e) [0..<boardSize * boardSize])"

definition countsMatch :: "Status \<Rightarrow> bool" where
  "countsMatch s =
     (whiteScore s = int (countCells s White) \<and> blackScore s = int (countCells s Black))"

text \<open>The number of neighbours of \<open>(i, j)\<close> that hold the colour of the player not to move.\<close>

definition capturedBy :: "Status \<Rightarrow> nat \<Rightarrow> nat \<Rightarrow> nat" where
  "capturedBy s i j = length (filter (holds s (otherPlayer s)) (cellsAtDistance 1 i j))"

text \<open>
  The legal successors into the cell \<open>(i, j)\<close>: a spawn if some neighbour at distance 1
  holds the mover's colour, and one jump for every cell at distance 2 that holds it.
  The legal successors of a state are those into its Empty cells.
\<close>

definition legalInto :: "Status \<Rightarrow> nat \<Rightarrow> nat \<Rightarrow> Status list" where
  "legalInto s i j =
     (if list_ex (holds s (movingPlayer s)) (cellsAtDistance 1 i j) then [spawn s i j] else []) @
     map (\<lambda>c. spawn (setEntry s (cellIndex c) Empty) i j)
       (filter (holds s (movingPlayer s)) (cellsAtDistance 2 i j))"

definition legalSuccessors :: "Status \<Rightarrow> Status list" where
  "legalSuccessors s =
     concat (map (\<lambda>c. if holds s Empty c then legalInto s (fst c) (snd c) else []) boardCells)"

text \<open>
  Exhaustive minimax of a given depth: no window, no cutoff, no sorting; White maximises,
  Black minimises, and a state without moves is worth its score.
\<close>

fun exhaustive :: "nat \<Rightarrow> Status \<Rightarrow> Score" where
  "exhaustive 0 s = score s"
| "exhaustive (Suc d) s =
     (let moves = snd (generateStatuses s) in
      if moves = [] then score s
      else if whiteMoves s then Max (set (map (exhaustive d) moves))
      else Min (set (map (exhaustive d) moves)))"

text \<open>
  The states the program can reach from the starting position: by a generated move, or by
  the forced pass of \<open>minimax\<close> when there is no move.
\<close>

inductive reachable :: "Status \<Rightarrow> bool" where
  start: "reachable initial"
| move: "reachable s \<Longrightarrow> t \<in> set (snd (generateStatuses s)) \<Longrightarrow> reachable t"
| pass: "reachable s \<Longrightarrow> fst (generateStatuses s) = 0 \<Longrightarrow> reachable (switchPlayerTurn s)"

code_pred reachable .

text \<open>
  A path of the search tree below \<open>s\<close>: every status on it is one of the statuses
  generated from the one before.
\<close>

fun searchPath :: "Status \<Rightarrow> Status list \<Rightarrow> bool" where
  "searchPath s [] = True"
| "searchPath s (t # ts) = (t \<in> set (snd (generateStatuses s)) \<and> searchPath t ts)"

section \<open>Auxiliary notions for the proofs\<close>

text \<open>
  What the search relies on from \<open>std::sort\<close>: the sorted range is a permutation of the
  range it was given.
\<close>

definition permSorter :: "Sorter \<Rightarrow> bool" where
  "permSorter srt = (\<forall>cmp xs. mset (srt cmp xs) = mset xs)"

text \<open>
  The relation between the value \<open>v\<close> that a search with window \<open>(a, b)\<close> returns and the
  exhaustive value \<open>m\<close>: at or below \<open>a\<close> it is an upper bound, at or above \<open>b\<close> a lower
  bound, and strictly inside the window it is exact.
\<close>

definition withinWindow :: "Score \<Rightarrow> Score \<Rightarrow> Score \<Rightarrow> Score \<Rightarrow> bool" where
  "withinWindow a b v m = ((v \<le> a \<longrightarrow> m \<le> v) \<and> (a < v \<and> v < b \<longrightarrow> v = m) \<and> (b \<le> v \<longrightarrow> v \<le> m))"

text \<open>Where cell \<open>pos\<close> lives (word and bit offset), and reading and writing two bits.\<close>

definition wordOf :: "nat \<Rightarrow> nat" where
  "wordOf pos = pos * 2 div bitsPerStorage"

definition offOf :: "nat \<Rightarrow> nat" where
  "offOf pos = pos * 2 - (pos * 2 div bitsPerStorage) * bitsPerStorage"

definition readBits :: "Storage \<Rightarrow> nat \<Rightarrow> Storage" where
  "readBits w r = drop_bit r (w AND push_bit r 3)"

definition writeBits :: "Storage \<Rightarrow> nat \<Rightarrow> Entry \<Rightarrow> Storage" where
  "writeBits w r v = (w AND NOT (push_bit r 3)) OR push_bit r (toStorage v)"

text \<open>The pattern \<open>if(operator[](pos) == np) { set(pos, cp); }\<close> of \<open>spawn\<close>, under a guard.\<close>

definition capture :: "bool \<Rightarrow> nat \<Rightarrow> Entry \<Rightarrow> Entry \<Rightarrow> Status \<Rightarrow> Status" where
  "capture g pos np cp s = (if g \<and> get s pos = np then setEntry s pos cp else s)"

text \<open>
  \<open>spawn\<close> in two stages: the status after the placement, the count and the switch of the
  turn, and then the eight guarded captures, in the order of the source.
\<close>

definition placed :: "Status \<Rightarrow> nat \<Rightarrow> nat \<Rightarrow> Status" where
  "placed s i j =
     (let s1 = setNoScoreAdjust s (i * boardSize + j) (movingPlayer s);
          s2 = (if whiteMoves s1 then s1\<lparr>whiteScore := whiteScore s1 + 1\<rparr>
                else s1\<lparr>blackScore := blackScore s1 + 1\<rparr>)
      in switchPlayerTurn s2)"

definition around :: "nat \<Rightarrow> nat \<Rightarrow> (bool \<times> nat) list" where
  "around i j =
     [(i > 0 \<and> j > 0, (i - 1) * boardSize + j - 1),
      (i > 0, (i - 1) * boardSize + j),
      (i > 0 \<and> j < boardSize - 1, (i - 1) * boardSize + j + 1),
      (j > 0, i * boardSize + j - 1),
      (j < boardSize - 1, i * boardSize + j + 1),
      (i < boardSize - 1 \<and> j > 0, (i + 1) * boardSize + j - 1),
      (i < boardSize - 1, (i + 1) * boardSize + j),
      (i < boardSize - 1 \<and> j < boardSize - 1, (i + 1) * boardSize + j + 1)]"

definition captures :: "Entry \<Rightarrow> Entry \<Rightarrow> (bool \<times> nat) list \<Rightarrow> Status \<Rightarrow> Status" where
  "captures np cp gps s = fold (\<lambda>gp. capture (fst gp) (snd gp) np cp) gps s"

definition guardedInRange :: "(bool \<times> nat) list \<Rightarrow> bool" where
  "guardedInRange gps = list_all (\<lambda>gp. fst gp \<longrightarrow> snd gp < boardSize * boardSize) gps"

definition guarded :: "(bool \<times> nat) list \<Rightarrow> nat list" where
  "guarded gps = map snd (filter fst gps)"

text \<open>Appending a list of statuses to an output, and a list of at most one status.\<close>

definition emitAll :: "Output \<Rightarrow> Status list \<Rightarrow> Output" where
  "emitAll out xs = (fst out + length xs, snd out @ xs)"

definition whenList :: "bool \<Rightarrow> 'a \<Rightarrow> 'a list" where
  "whenList c x = (if c then [x] else [])"

definition emitWhen :: "bool \<Rightarrow> Status \<Rightarrow> Output \<Rightarrow> Output" where
  "emitWhen c copy out = (if c then emit copy out else out)"

text \<open>
  The sixteen guarded jump origins of \<open>generateStatuses\<close> for the destination \<open>(i, j)\<close>, in
  the order of the source, each with the conjunction of the tests that enclose it.
\<close>

definition jumpAround :: "nat \<Rightarrow> nat \<Rightarrow> (bool \<times> nat) list" where
  "jumpAround i j =
     [(i > 1 \<and> j > 0 \<and> j > 1, (i - 2) * boardSize + j - 2),
      (i > 1 \<and> j > 0, (i - 2) * boardSize + j - 1),
      (i > 1, (i - 2) * boardSize + j),
      (i > 1 \<and> j < boardSize - 1, (i - 2) * boardSize + j + 1),
      (i > 1 \<and> j < boardSize - 1 \<and> j < boardSize - 2, (i - 2) * boardSize + j + 2),
      (i > 0 \<and> j > 1, (i - 1) * boardSize + j - 2),
      (i > 0 \<and> j < boardSize - 2, (i - 1) * boardSize + j + 2),
      (j > 1, i * boardSize + j - 2),
      (j < boardSize - 2, i * boardSize + j + 2),
      (i < boardSize - 1 \<and> j > 1, (i + 1) * boardSize + j - 2),
      (i < boardSize - 1 \<and> j < boardSize - 2, (i + 1) * boardSize + j + 2),
      (i < boardSize - 2 \<and> j > 0 \<and> j > 1, (i + 2) * boardSize + j - 2),
      (i < boardSize - 2 \<and> j > 0, (i + 2) * boardSize + j - 1),
      (i < boardSize - 2, (i + 2) * boardSize + j),
      (i < boardSize - 2 \<and> j < boardSize - 1, (i + 2) * boardSize + j + 1),
      (i < boardSize - 2 \<and> j < boardSize - 1 \<and> j < boardSize - 2, (i + 2) * boardSize + j + 2)]"

text \<open>The statuses \<open>generateStatuses\<close> emits for the cell \<open>(i, j)\<close>, as a list.\<close>

definition cellList :: "Status \<Rightarrow> nat \<Rightarrow> nat \<Rightarrow> Status list" where
  "cellList start i j =
     (if get start (i * boardSize + j) \<noteq> Empty then []
      else
        whenList (list_ex (\<lambda>gp. fst gp \<and> get start (snd gp) = movingPlayer start) (around i j))
          (spawn start i j) @
        concat (map (\<lambda>gp. whenList (fst gp \<and> get start (snd gp) = movingPlayer start)
                             (jumpCopy start (snd gp) i j))
                    (jumpAround i j)))"

section \<open>Cells and the turn bit in the packed words\<close>

lemma take_bit_toStorage: "take_bit 2 (toStorage v) = toStorage v"
  by (cases v) (simp_all add: toStorage_def)

lemma bit_toStorage: "bit (toStorage v) n \<Longrightarrow> n < 2"
proof -
  assume "bit (toStorage v) n"
  then have "bit (take_bit 2 (toStorage v)) n" by (simp add: take_bit_toStorage)
  then show "n < 2" by (simp add: bit_simps)
qed

lemma toEntry_toStorage: "toEntry (toStorage v) = v"
  by (cases v) (simp_all add: toEntry_def toStorage_def)

lemma three_mask: "(3::Storage) = mask 2"
  by (simp add: mask_eq_exp_minus_1)

lemma bit_turn: "bit (push_bit (bitsPerStorage - 1) (1::Storage)) n = (n = 63)"
proof -
  have "bit (push_bit 63 (1::Storage)) n = (n = 63)"
    by (simp only: bit_push_bit_iff bit_1_iff) (auto simp add: not_le)
  then show ?thesis by (simp only: diff_numeral_special numeral_One [symmetric]) simp
qed

lemma write_top_gen:
  fixes t :: Storage
  assumes "\<And>n. bit t n = (n = 63)" "r + 2 \<le> 63"
  shows "((w AND NOT (push_bit r (3::Storage))) OR push_bit r (toStorage v)) AND t = w AND t"
  using assms(2) unfolding three_mask
  by (intro bit_eqI) (auto simp add: bit_simps assms(1) dest: bit_imp_le_length bit_toStorage)

lemma flip_top_gen:
  fixes t :: Storage
  assumes "\<And>n. bit t n = (n = 63)" "r + 2 \<le> 63"
  shows "take_bit 2 (drop_bit r (w XOR t)) = take_bit 2 (drop_bit r w)"
  using assms(2)
  by (intro bit_eqI) (auto simp add: bit_simps assms(1) dest: bit_imp_le_length)

lemma and_turn_gen:
  fixes t x :: Storage
  assumes "\<And>n. bit t n = (n = 63)"
  shows "(x AND t = 0) = (\<not> bit x 63)"
proof
  assume "x AND t = 0"
  then have "\<not> bit (x AND t) 63" by simp
  then show "\<not> bit x 63" by (simp add: bit_and_iff assms)
next
  assume "\<not> bit x 63"
  then show "x AND t = 0"
    by (intro bit_eqI) (auto simp add: bit_and_iff assms)
qed

lemma flip_turn_gen:
  fixes t :: Storage
  assumes "\<And>n. bit t n = (n = 63)"
  shows "((w XOR t) AND t = 0) = (w AND t \<noteq> 0)"
  by (simp add: and_turn_gen [OF assms] bit_xor_iff assms)

lemma mask_read: "drop_bit r (w AND push_bit r (3::Storage)) = take_bit 2 (drop_bit r w)"
  unfolding three_mask
  by (rule bit_eqI) (auto simp add: bit_simps dest: bit_imp_le_length)

lemma write_same:
  assumes "r + 2 \<le> 64"
  shows "take_bit 2 (drop_bit r ((w AND NOT (push_bit r (3::Storage))) OR push_bit r (toStorage v))) = toStorage v"
proof -
  have "take_bit 2 (drop_bit r ((w AND NOT (push_bit r (3::Storage))) OR push_bit r (toStorage v))) = take_bit 2 (toStorage v)"
    using assms unfolding three_mask
    by (intro bit_eqI) (auto simp add: bit_simps)
  then show ?thesis by (simp add: take_bit_toStorage)
qed

lemma write_other:
  assumes "r + 2 \<le> r' \<or> r' + 2 \<le> r"
  shows "take_bit 2 (drop_bit r' ((w AND NOT (push_bit r (3::Storage))) OR push_bit r (toStorage v))) = take_bit 2 (drop_bit r' w)"
  using assms unfolding three_mask
  by (intro bit_eqI) (auto simp add: bit_simps dest: bit_imp_le_length bit_toStorage)

lemma readBits_writeBits_same: "r + 2 \<le> 64 \<Longrightarrow> readBits (writeBits w r v) r = toStorage v"
  unfolding readBits_def writeBits_def mask_read by (rule write_same)

lemma readBits_writeBits_other:
  "r + 2 \<le> r' \<or> r' + 2 \<le> r \<Longrightarrow> readBits (writeBits w r v) r' = readBits w r'"
  unfolding readBits_def writeBits_def mask_read by (rule write_other)

lemma get_readBits: "get s pos = toEntry (readBits (storageAt (storages s) (wordOf pos)) (offOf pos))"
  by (simp only: get_def readBits_def Let_def wordOf_def offOf_def)

lemma storages_setNoScoreAdjust:
  "storages (setNoScoreAdjust s p v) =
     storagePut (storages s) (wordOf p) (writeBits (storageAt (storages s) (wordOf p)) (offOf p) v)"
  by (simp add: setNoScoreAdjust_def Let_def wordOf_def offOf_def writeBits_def)

lemma storageAt_storagePut:
  "storageAt (storagePut st i w) i' = (if (i = 0) = (i' = 0) then w else storageAt st i')"
  by (simp add: storageAt_def storagePut_def)

lemma storageAt_cong0: "(i = 0) = (i' = 0) \<Longrightarrow> storageAt st i = storageAt st i'"
  by (simp add: storageAt_def)

lemma cell_low: "p < 32 \<Longrightarrow> wordOf p = 0 \<and> offOf p = 2 * p"
  by (simp add: wordOf_def offOf_def)

lemma cell_high: "32 \<le> p \<Longrightarrow> p < 49 \<Longrightarrow> wordOf p = 1 \<and> offOf p = 2 * p - 64"
proof -
  assume a: "32 \<le> p" "p < 49"
  then have "p * 2 div 64 = 1" by arith
  then show ?thesis by (simp add: wordOf_def offOf_def)
qed

lemma offOf_le: "p < 49 \<Longrightarrow> offOf p + 2 \<le> 64"
  using cell_low [of p] cell_high [of p] by (cases "p < 32") auto

lemma offOf_second: "p < 49 \<Longrightarrow> wordOf p \<noteq> 0 \<Longrightarrow> offOf p + 2 \<le> 63"
  using cell_low [of p] cell_high [of p] by (cases "p < 32") auto

lemma offOf_apart:
  "p < 49 \<Longrightarrow> q < 49 \<Longrightarrow> p \<noteq> q \<Longrightarrow> (wordOf p = 0) = (wordOf q = 0) \<Longrightarrow>
     offOf p + 2 \<le> offOf q \<or> offOf q + 2 \<le> offOf p"
  using cell_low [of p] cell_high [of p] cell_low [of q] cell_high [of q]
  by (cases "p < 32"; cases "q < 32") auto

lemma get_setNoScoreAdjust_same:
  assumes "p < 49"
  shows "get (setNoScoreAdjust s p v) p = v"
  by (simp add: get_readBits storages_setNoScoreAdjust storageAt_storagePut
        readBits_writeBits_same [OF offOf_le [OF assms]] toEntry_toStorage)

lemma get_setNoScoreAdjust_other:
  assumes "p < 49" "q < 49" "p \<noteq> q"
  shows "get (setNoScoreAdjust s p v) q = get s q"
proof (cases "(wordOf p = 0) = (wordOf q = 0)")
  case True
  from readBits_writeBits_other [OF offOf_apart [OF assms True]] storageAt_cong0 [OF True] True
  show ?thesis
    by (simp add: get_readBits storages_setNoScoreAdjust storageAt_storagePut)
next
  case False
  then show ?thesis
    by (auto simp add: get_readBits storages_setNoScoreAdjust storageAt_storagePut)
qed

lemma get_setNoScoreAdjust:
  assumes "p < 49" "q < 49"
  shows "get (setNoScoreAdjust s p v) q = (if p = q then v else get s q)"
  using assms
  by (simp add: get_setNoScoreAdjust_same get_setNoScoreAdjust_other)

lemma whiteMoves_setNoScoreAdjust:
  assumes "p < 49"
  shows "whiteMoves (setNoScoreAdjust s p v) = whiteMoves s"
proof (cases "wordOf p = 0")
  case True
  then show ?thesis
    by (simp add: whiteMoves_def storages_setNoScoreAdjust storagePut_def)
next
  case False
  have "snd (storages (setNoScoreAdjust s p v)) AND push_bit (bitsPerStorage - 1) 1 =
        snd (storages s) AND push_bit (bitsPerStorage - 1) 1"
    using False write_top_gen [OF bit_turn offOf_second [OF assms False], of "snd (storages s)" v]
    by (simp only: storages_setNoScoreAdjust storagePut_def storageAt_def writeBits_def if_False snd_conv)
  then show ?thesis by (simp only: whiteMoves_def)
qed

lemma storages_switchPlayerTurn:
  "storages (switchPlayerTurn s) =
     (fst (storages s), snd (storages s) XOR push_bit (bitsPerStorage - 1) 1)"
  by (simp add: switchPlayerTurn_def)

lemma get_switchPlayerTurn:
  assumes "q < 49"
  shows "get (switchPlayerTurn s) q = get s q"
proof (cases "wordOf q = 0")
  case True
  then show ?thesis
    by (simp add: get_readBits storages_switchPlayerTurn storageAt_def)
next
  case False
  show ?thesis using False flip_top_gen [OF bit_turn offOf_second [OF assms False], of "snd (storages s)"]
    by (simp only: get_readBits readBits_def mask_read storages_switchPlayerTurn storageAt_def if_False snd_conv)
qed

lemma whiteMoves_switchPlayerTurn: "whiteMoves (switchPlayerTurn s) = (\<not> whiteMoves s)"
  by (simp only: whiteMoves_def storages_switchPlayerTurn snd_conv flip_turn_gen [OF bit_turn] not_not)


section \<open>What set, switchPlayerTurn and the constructor do to the observations\<close>

lemma get_Status0: "get Status0 pos = Empty"
  by (simp add: get_readBits readBits_def Status0_def storageAt_def toEntry_def)

lemma whiteMoves_Status0: "whiteMoves Status0"
  by (simp add: whiteMoves_def Status0_def)

lemma scores_Status0: "whiteScore Status0 = 0" "blackScore Status0 = 0"
  by (simp_all add: Status0_def)

lemma scores_setNoScoreAdjust:
  "whiteScore (setNoScoreAdjust s p v) = whiteScore s"
  "blackScore (setNoScoreAdjust s p v) = blackScore s"
  by (simp_all add: setNoScoreAdjust_def Let_def)

lemma scores_switchPlayerTurn:
  "whiteScore (switchPlayerTurn s) = whiteScore s"
  "blackScore (switchPlayerTurn s) = blackScore s"
  by (simp_all add: switchPlayerTurn_def)

lemma get_scores_update:
  "get (s\<lparr>whiteScore := w\<rparr>) pos = get s pos"
  "get (s\<lparr>blackScore := b\<rparr>) pos = get s pos"
  by (simp_all add: get_def)

lemma whiteMoves_scores_update:
  "whiteMoves (s\<lparr>whiteScore := w\<rparr>) = whiteMoves s"
  "whiteMoves (s\<lparr>blackScore := b\<rparr>) = whiteMoves s"
  by (simp_all add: whiteMoves_def)

lemma setNoScoreAdjust_scores_update:
  "setNoScoreAdjust (s\<lparr>whiteScore := w\<rparr>) p v = (setNoScoreAdjust s p v)\<lparr>whiteScore := w\<rparr>"
  "setNoScoreAdjust (s\<lparr>blackScore := b\<rparr>) p v = (setNoScoreAdjust s p v)\<lparr>blackScore := b\<rparr>"
  by (simp_all add: setNoScoreAdjust_def Let_def)

lemma get_setEntry:
  assumes "p < 49" "q < 49"
  shows "get (setEntry s p v) q = (if p = q then v else get s q)"
  using assms
  by (auto simp add: setEntry_def Let_def get_setNoScoreAdjust get_scores_update)

lemma whiteMoves_setEntry: "p < 49 \<Longrightarrow> whiteMoves (setEntry s p v) = whiteMoves s"
  by (simp add: setEntry_def Let_def whiteMoves_setNoScoreAdjust whiteMoves_scores_update)

lemma whiteScore_setEntry:
  "whiteScore (setEntry s p v) =
     whiteScore s + (if v = White then 1 else 0) - (if get s p = White then 1 else 0)"
  by (auto simp add: setEntry_def Let_def scores_setNoScoreAdjust)

lemma blackScore_setEntry:
  "blackScore (setEntry s p v) =
     blackScore s + (if v = Black then 1 else 0) - (if get s p = Black then 1 else 0)"
  by (auto simp add: setEntry_def Let_def scores_setNoScoreAdjust)

lemma blackMoves_iff: "blackMoves s = (\<not> whiteMoves s)"
  by (simp add: blackMoves_def whiteMoves_def)

lemma movingPlayer_cases: "movingPlayer s = White \<or> movingPlayer s = Black"
  by (simp add: movingPlayer_def)

section \<open>The score\<close>

text \<open>
  Claim C4. \<open>score\<close> returns \<open>+N\<^sup>2\<close> when the Black count is zero; otherwise \<open>-N\<^sup>2\<close> when
  the White count is zero; otherwise, on a full board (the two counts add up to \<open>N\<^sup>2\<close>),
  \<open>+N\<^sup>2\<close> when White has more and \<open>-N\<^sup>2\<close> when Black has more; in the remaining cases
  (board not full, or full with equal counts) the difference White minus Black, which is
  zero in the tie case.
\<close>

theorem score_cases:
  "(blackScore s = 0 \<longrightarrow> score s = int (boardSize * boardSize)) \<and>
   (blackScore s \<noteq> 0 \<and> whiteScore s = 0 \<longrightarrow> score s = - int (boardSize * boardSize)) \<and>
   (blackScore s \<noteq> 0 \<and> whiteScore s \<noteq> 0 \<and>
      whiteScore s + blackScore s = int (boardSize * boardSize) \<and> whiteScore s > blackScore s
        \<longrightarrow> score s = int (boardSize * boardSize)) \<and>
   (blackScore s \<noteq> 0 \<and> whiteScore s \<noteq> 0 \<and>
      whiteScore s + blackScore s = int (boardSize * boardSize) \<and> blackScore s > whiteScore s
        \<longrightarrow> score s = - int (boardSize * boardSize)) \<and>
   (blackScore s \<noteq> 0 \<and> whiteScore s \<noteq> 0 \<and>
      (whiteScore s + blackScore s \<noteq> int (boardSize * boardSize) \<or> whiteScore s = blackScore s)
        \<longrightarrow> score s = whiteScore s - blackScore s \<and>
            (whiteScore s = blackScore s \<longrightarrow> score s = 0))"
  by (simp add: score_def)

theorem score_cases_witness:
  "score (setEntry Status0 0 White) = 49 \<and>
   score (setEntry Status0 0 Black) = - 49 \<and>
   score \<lparr>storages = (0, 0), whiteScore = 25, blackScore = 24\<rparr> = 49 \<and>
   score \<lparr>storages = (0, 0), whiteScore = 24, blackScore = 25\<rparr> = - 49 \<and>
   score \<lparr>storages = (0, 0), whiteScore = 5, blackScore = 3\<rparr> = 2 \<and>
   score initial = 0"
proof -
  have a: "blackScore (setEntry Status0 0 White) = 0"
    by (simp add: blackScore_setEntry get_Status0 scores_Status0)
  have b: "blackScore (setEntry Status0 0 Black) \<noteq> 0 \<and> whiteScore (setEntry Status0 0 Black) = 0"
    by (simp add: blackScore_setEntry whiteScore_setEntry get_Status0 scores_Status0)
  have c: "blackScore initial = 2 \<and> whiteScore initial = 2"
    by (simp add: initial_def blackScore_setEntry whiteScore_setEntry get_setEntry get_Status0 scores_Status0)
  show ?thesis
    using score_cases [of "setEntry Status0 0 White"] a
      score_cases [of "setEntry Status0 0 Black"] b
      score_cases [of "\<lparr>storages = (0, 0), whiteScore = 25, blackScore = 24\<rparr>"]
      score_cases [of "\<lparr>storages = (0, 0), whiteScore = 24, blackScore = 25\<rparr>"]
      score_cases [of "\<lparr>storages = (0, 0), whiteScore = 5, blackScore = 3\<rparr>"]
      score_cases [of initial] c
    by simp
qed

text \<open>A full board cannot be tied: \<open>N\<^sup>2 = 49\<close> is odd.\<close>

lemma full_board_not_tied:
  "whiteScore s + blackScore s = int (boardSize * boardSize) \<Longrightarrow> whiteScore s \<noteq> blackScore s"
  by presburger

text \<open>
  Claim C9. When both counts are zero, as on the default-constructed empty board,
  \<open>score\<close> returns \<open>+N\<^sup>2\<close>: the test of the Black count comes first.
\<close>

theorem score_both_zero:
  "whiteScore s = 0 \<and> blackScore s = 0 \<Longrightarrow> score s = int (boardSize * boardSize)"
  by (simp add: score_def)

theorem score_both_zero_witness:
  "whiteScore Status0 = 0 \<and> blackScore Status0 = 0 \<and> score Status0 = 49"
  using score_both_zero [of Status0] by (simp add: scores_Status0)

section \<open>The placement and the captures of spawn\<close>

lemma if_conj_nested: "(if g \<and> c then a else b) = (if g then (if c then a else b) else b)"
  by simp

lemma spawn_capture:
  "spawn s i j =
     (let cp = movingPlayer s;
          s3 = placed s i j;
          np = movingPlayer s3;
          s4 = (if i > 0 then
                  (let a = capture (j > 0) ((i - 1) * boardSize + j - 1) np cp s3;
                       b = capture True ((i - 1) * boardSize + j) np cp a;
                       c = capture (j < boardSize - 1) ((i - 1) * boardSize + j + 1) np cp b
                   in c)
                else s3);
          s5 = capture (j > 0) (i * boardSize + j - 1) np cp s4;
          s6 = capture (j < boardSize - 1) (i * boardSize + j + 1) np cp s5;
          s7 = (if i < boardSize - 1 then
                  (let a = capture (j > 0) ((i + 1) * boardSize + j - 1) np cp s6;
                       b = capture True ((i + 1) * boardSize + j) np cp a;
                       c = capture (j < boardSize - 1) ((i + 1) * boardSize + j + 1) np cp b
                   in c)
                else s6)
      in s7)"
  unfolding spawn_def capture_def placed_def by (simp only: simp_thms Let_def)


lemma capture_False: "capture False pos np cp s = s"
  by (simp add: capture_def)

lemma spawn_fold:
  "spawn s i j =
     captures (movingPlayer (placed s i j)) (movingPlayer s) (around i j) (placed s i j)"
proof -
  have a: "capture (x \<and> y) p np cp t = (if x then capture y p np cp t else t)" for x y p np cp t
    by (simp add: capture_def)
  show ?thesis
    unfolding spawn_capture captures_def around_def Let_def fold_simps a
    by (simp add: capture_False del: One_nat_def)
qed

lemma whiteMoves_placed:
  "i < 7 \<Longrightarrow> j < 7 \<Longrightarrow> whiteMoves (placed s i j) = (\<not> whiteMoves s)"
  by (simp add: placed_def Let_def whiteMoves_switchPlayerTurn whiteMoves_scores_update
        whiteMoves_setNoScoreAdjust)

lemma movingPlayer_placed:
  "i < 7 \<Longrightarrow> j < 7 \<Longrightarrow> movingPlayer (placed s i j) = otherPlayer s"
  by (simp add: movingPlayer_def otherPlayer_def whiteMoves_placed)

lemma get_placed:
  "i < 7 \<Longrightarrow> j < 7 \<Longrightarrow> q < 49 \<Longrightarrow>
     get (placed s i j) q = (if q = i * 7 + j then movingPlayer s else get s q)"
  by (auto simp add: placed_def Let_def get_switchPlayerTurn get_scores_update get_setNoScoreAdjust)

lemma whiteScore_placed:
  "i < 7 \<Longrightarrow> j < 7 \<Longrightarrow>
     whiteScore (placed s i j) = whiteScore s + (if whiteMoves s then 1 else 0)"
  by (simp add: placed_def Let_def scores_switchPlayerTurn scores_setNoScoreAdjust
        whiteMoves_setNoScoreAdjust)

lemma blackScore_placed:
  "i < 7 \<Longrightarrow> j < 7 \<Longrightarrow>
     blackScore (placed s i j) = blackScore s + (if whiteMoves s then 0 else 1)"
  by (simp add: placed_def Let_def scores_switchPlayerTurn scores_setNoScoreAdjust
        whiteMoves_setNoScoreAdjust)

text \<open>One guarded capture, then a list of them.\<close>

lemma get_capture:
  "(g \<Longrightarrow> p < 49) \<Longrightarrow> q < 49 \<Longrightarrow>
     get (capture g p np cp s) q = (if g \<and> p = q \<and> get s q = np then cp else get s q)"
  by (auto simp add: capture_def get_setEntry)

lemma whiteMoves_capture: "(g \<Longrightarrow> p < 49) \<Longrightarrow> whiteMoves (capture g p np cp s) = whiteMoves s"
  by (simp add: capture_def whiteMoves_setEntry)

lemma whiteScore_capture:
  "np \<noteq> cp \<Longrightarrow>
   whiteScore (capture g p np cp s) =
     whiteScore s + (if g \<and> get s p = np then (if cp = White then 1 else 0) - (if np = White then 1 else 0) else 0)"
  by (auto simp add: capture_def whiteScore_setEntry)

lemma blackScore_capture:
  "np \<noteq> cp \<Longrightarrow>
   blackScore (capture g p np cp s) =
     blackScore s + (if g \<and> get s p = np then (if cp = Black then 1 else 0) - (if np = Black then 1 else 0) else 0)"
  by (auto simp add: capture_def blackScore_setEntry)

lemma get_captures:
  "guardedInRange gps \<Longrightarrow> q < 49 \<Longrightarrow> np \<noteq> cp \<Longrightarrow>
     get (captures np cp gps s) q =
       (if q \<in> set (guarded gps) \<and> get s q = np then cp else get s q)"
proof (induction gps arbitrary: s)
  case Nil
  then show ?case by (simp add: captures_def guarded_def)
next
  case (Cons gp gps)
  have r: "guardedInRange gps" "fst gp \<Longrightarrow> snd gp < 49"
    using Cons.prems(1) by (simp_all add: guardedInRange_def)
  have "get (captures np cp (gp # gps) s) q =
        get (captures np cp gps (capture (fst gp) (snd gp) np cp s)) q"
    by (simp add: captures_def)
  also have "\<dots> = (if q \<in> set (guarded gps) \<and>
                        get (capture (fst gp) (snd gp) np cp s) q = np
                     then cp else get (capture (fst gp) (snd gp) np cp s) q)"
    by (rule Cons.IH [OF r(1) Cons.prems(2,3)])
  finally show ?case
    using Cons.prems(2,3) r(2) by (auto simp add: get_capture guarded_def)
qed

lemma whiteMoves_captures:
  "guardedInRange gps \<Longrightarrow> whiteMoves (captures np cp gps s) = whiteMoves s"
proof (induction gps arbitrary: s)
  case Nil
  then show ?case by (simp add: captures_def)
next
  case (Cons gp gps)
  then have r: "guardedInRange gps" "fst gp \<Longrightarrow> snd gp < 49"
    by (simp_all add: guardedInRange_def)
  have "captures np cp (gp # gps) s = captures np cp gps (capture (fst gp) (snd gp) np cp s)"
    by (simp add: captures_def)
  then show ?case using Cons.IH [OF r(1)] r(2) by (simp add: whiteMoves_capture)
qed


lemma captured_count_step:
  assumes "guardedInRange (gp # gps)" "distinct (guarded (gp # gps))" "np \<noteq> cp"
  shows "filter (\<lambda>p. get (capture (fst gp) (snd gp) np cp s) p = np) (guarded gps) =
         filter (\<lambda>p. get s p = np) (guarded gps)"
proof (rule filter_cong [OF refl])
  fix p assume p: "p \<in> set (guarded gps)"
  then obtain g where "(g, p) \<in> set gps" "g"
    by (auto simp add: guarded_def)
  with assms(1) have p49: "p < 49"
    by (auto simp add: guardedInRange_def list_all_iff)
  have "fst gp \<Longrightarrow> snd gp \<noteq> p"
    using assms(2) p by (auto simp add: guarded_def)
  moreover have "fst gp \<Longrightarrow> snd gp < 49"
    using assms(1) by (simp add: guardedInRange_def)
  ultimately show "(get (capture (fst gp) (snd gp) np cp s) p = np) = (get s p = np)"
    using p49 by (auto simp add: get_capture)
qed

lemma guarded_Cons: "guarded (gp # gps) = (if fst gp then snd gp # guarded gps else guarded gps)"
  by (simp add: guarded_def)

lemma captures_Cons:
  "captures np cp (gp # gps) s = captures np cp gps (capture (fst gp) (snd gp) np cp s)"
  by (simp add: captures_def)

lemma whiteScore_captures:
  "guardedInRange gps \<Longrightarrow> distinct (guarded gps) \<Longrightarrow> np \<noteq> cp \<Longrightarrow>
     whiteScore (captures np cp gps s) =
       whiteScore s
         + (if cp = White then int (length (filter (\<lambda>p. get s p = np) (guarded gps))) else 0)
         - (if np = White then int (length (filter (\<lambda>p. get s p = np) (guarded gps))) else 0)"
proof (induction gps arbitrary: s)
  case Nil
  then show ?case by (simp add: captures_def guarded_def)
next
  case (Cons gp gps)
  define s' where "s' = capture (fst gp) (snd gp) np cp s"
  define k where "k = int (length (filter (\<lambda>p. get s p = np) (guarded gps)))"
  have r: "guardedInRange gps" "distinct (guarded gps)"
    using Cons.prems(1,2) by (auto simp add: guardedInRange_def guarded_Cons split: if_splits)
  have same: "int (length (filter (\<lambda>p. get s' p = np) (guarded gps))) = k"
    unfolding s'_def k_def using captured_count_step [OF Cons.prems, of s] by simp
  have ih: "whiteScore (captures np cp gps s') =
              whiteScore s' + (if cp = White then k else 0) - (if np = White then k else 0)"
    using Cons.IH [OF r Cons.prems(3), of s'] unfolding same .
  have step: "whiteScore s' =
      whiteScore s + (if fst gp \<and> get s (snd gp) = np
                      then (if cp = White then 1 else 0) - (if np = White then 1 else 0) else 0)"
    unfolding s'_def by (rule whiteScore_capture [OF Cons.prems(3)])
  have total: "int (length (filter (\<lambda>p. get s p = np) (guarded (gp # gps)))) =
      (if fst gp \<and> get s (snd gp) = np then 1 else 0) + k"
    by (simp add: guarded_Cons k_def)
  show ?case
    unfolding captures_Cons s'_def [symmetric] ih step total by simp
qed

lemma blackScore_captures:
  "guardedInRange gps \<Longrightarrow> distinct (guarded gps) \<Longrightarrow> np \<noteq> cp \<Longrightarrow>
     blackScore (captures np cp gps s) =
       blackScore s
         + (if cp = Black then int (length (filter (\<lambda>p. get s p = np) (guarded gps))) else 0)
         - (if np = Black then int (length (filter (\<lambda>p. get s p = np) (guarded gps))) else 0)"
proof (induction gps arbitrary: s)
  case Nil
  then show ?case by (simp add: captures_def guarded_def)
next
  case (Cons gp gps)
  define s' where "s' = capture (fst gp) (snd gp) np cp s"
  define k where "k = int (length (filter (\<lambda>p. get s p = np) (guarded gps)))"
  have r: "guardedInRange gps" "distinct (guarded gps)"
    using Cons.prems(1,2) by (auto simp add: guardedInRange_def guarded_Cons split: if_splits)
  have same: "int (length (filter (\<lambda>p. get s' p = np) (guarded gps))) = k"
    unfolding s'_def k_def using captured_count_step [OF Cons.prems, of s] by simp
  have ih: "blackScore (captures np cp gps s') =
              blackScore s' + (if cp = Black then k else 0) - (if np = Black then k else 0)"
    using Cons.IH [OF r Cons.prems(3), of s'] unfolding same .
  have step: "blackScore s' =
      blackScore s + (if fst gp \<and> get s (snd gp) = np
                      then (if cp = Black then 1 else 0) - (if np = Black then 1 else 0) else 0)"
    unfolding s'_def by (rule blackScore_capture [OF Cons.prems(3)])
  have total: "int (length (filter (\<lambda>p. get s p = np) (guarded (gp # gps)))) =
      (if fst gp \<and> get s (snd gp) = np then 1 else 0) + k"
    by (simp add: guarded_Cons k_def)
  show ?case
    unfolding captures_Cons s'_def [symmetric] ih step total by simp
qed

text \<open>The cells of the board, listed; a coordinate below 7 is one of seven numbers.\<close>

lemma boardCells_eq:
  "boardCells =
     [(0,0),(0,1),(0,2),(0,3),(0,4),(0,5),(0,6),
      (1,0),(1,1),(1,2),(1,3),(1,4),(1,5),(1,6),
      (2,0),(2,1),(2,2),(2,3),(2,4),(2,5),(2,6),
      (3,0),(3,1),(3,2),(3,3),(3,4),(3,5),(3,6),
      (4,0),(4,1),(4,2),(4,3),(4,4),(4,5),(4,6),
      (5,0),(5,1),(5,2),(5,3),(5,4),(5,5),(5,6),
      (6,0),(6,1),(6,2),(6,3),(6,4),(6,5),(6,6)]"
  by (simp add: boardCells_def upt_rec)

lemma lt7: "(i::nat) < 7 \<longleftrightarrow> i = 0 \<or> i = 1 \<or> i = 2 \<or> i = 3 \<or> i = 4 \<or> i = 5 \<or> i = 6"
  by arith

text \<open>The guarded positions of \<open>around\<close> are the cells at distance 1, in the same order.\<close>





lemma mem_boardCells: "(c \<in> set boardCells) = (fst c < 7 \<and> snd c < 7)"
proof -
  have "set boardCells = {0..<7} \<times> {0..<7}"
    by (auto simp add: boardCells_def)
  then show ?thesis by (cases c) auto
qed

lemma cellIndex_boardCells: "map cellIndex boardCells = [0..<49]"
  by code_simp

lemma cellIndex_inj: "inj_on cellIndex (set boardCells)"
proof -
  have "distinct (map cellIndex boardCells)"
    by (simp only: cellIndex_boardCells distinct_upt)
  then show ?thesis by (simp add: distinct_map)
qed

lemma cellIndex_less: "c \<in> set boardCells \<Longrightarrow> cellIndex c < 49"
proof -
  assume "c \<in> set boardCells"
  then have "cellIndex c \<in> set (map cellIndex boardCells)" by simp
  then show ?thesis by (simp only: cellIndex_boardCells) simp
qed

lemma guarded_around_all:
  "list_all (\<lambda>c. guarded (around (fst c) (snd c)) =
                   map cellIndex (cellsAtDistance 1 (fst c) (snd c))) boardCells"
  by code_simp

lemma guarded_around:
  assumes "i < 7" "j < 7"
  shows "guarded (around i j) = map cellIndex (cellsAtDistance 1 i j)"
proof -
  have "(i, j) \<in> set boardCells" using assms by (simp add: mem_boardCells)
  with guarded_around_all show ?thesis
    by (auto simp only: list_all_iff fst_conv snd_conv)
qed

lemma guardedInRange_around: "i < 7 \<Longrightarrow> j < 7 \<Longrightarrow> guardedInRange (around i j)"
  unfolding guardedInRange_def around_def by (simp del: One_nat_def) arith

lemma distinct_cellsAtDistance: "distinct (map cellIndex (cellsAtDistance d i j))"
proof -
  have "distinct (map cellIndex boardCells)"
    by (simp only: cellIndex_boardCells distinct_upt)
  then show ?thesis
    by (simp add: cellsAtDistance_def distinct_map_filter)
qed

lemma mem_cellsAtDistance:
  "(c \<in> set (cellsAtDistance d i j)) =
     (fst c < 7 \<and> snd c < 7 \<and> chebyshev i j (fst c) (snd c) = d)"
  by (auto simp add: cellsAtDistance_def mem_boardCells)

lemma index_mem_cellsAtDistance:
  assumes "i2 < 7" "j2 < 7"
  shows "(i2 * 7 + j2 \<in> set (map cellIndex (cellsAtDistance d i j))) = (chebyshev i j i2 j2 = d)"
proof
  assume "i2 * 7 + j2 \<in> set (map cellIndex (cellsAtDistance d i j))"
  then obtain c where c: "c \<in> set (cellsAtDistance d i j)" "cellIndex c = cellIndex (i2, j2)"
    by (auto simp add: cellIndex_def)
  have "c \<in> set boardCells" "(i2, j2) \<in> set boardCells"
    using c(1) assms by (simp_all add: mem_cellsAtDistance mem_boardCells)
  with c(2) cellIndex_inj have "c = (i2, j2)" by (auto dest: inj_onD)
  with c(1) show "chebyshev i j i2 j2 = d" by (simp add: mem_cellsAtDistance)
next
  assume "chebyshev i j i2 j2 = d"
  with assms have "(i2, j2) \<in> set (cellsAtDistance d i j)"
    by (simp add: mem_cellsAtDistance)
  then have "cellIndex (i2, j2) \<in> set (map cellIndex (cellsAtDistance d i j))"
    by (simp only: set_map) (rule imageI)
  then show "i2 * 7 + j2 \<in> set (map cellIndex (cellsAtDistance d i j))"
    by (simp add: cellIndex_def)
qed

lemma movingPlayer_neq_otherPlayer: "otherPlayer s \<noteq> movingPlayer s"
  by (simp add: otherPlayer_def movingPlayer_def)

lemma spawn_captures:
  "i < 7 \<Longrightarrow> j < 7 \<Longrightarrow>
     spawn s i j = captures (otherPlayer s) (movingPlayer s) (around i j) (placed s i j)"
  by (simp add: spawn_fold movingPlayer_placed)

lemma chebyshev_self: "chebyshev i j i j = 0"
  by (simp add: chebyshev_def)

lemma whiteMoves_spawn: "i < 7 \<Longrightarrow> j < 7 \<Longrightarrow> whiteMoves (spawn s i j) = (\<not> whiteMoves s)"
  by (simp add: spawn_captures whiteMoves_captures guardedInRange_around whiteMoves_placed)

lemma captured_placed:
  assumes "i < 7" "j < 7"
  shows "filter (\<lambda>p. get (placed s i j) p = otherPlayer s) (map cellIndex (cellsAtDistance 1 i j)) =
         filter (\<lambda>p. get s p = otherPlayer s) (map cellIndex (cellsAtDistance 1 i j))"
proof (rule filter_cong [OF refl])
  fix p assume "p \<in> set (map cellIndex (cellsAtDistance 1 i j))"
  then obtain c where c: "c \<in> set (cellsAtDistance 1 i j)" "p = cellIndex c" by auto
  then have b: "fst c < 7" "snd c < 7" "chebyshev i j (fst c) (snd c) = 1"
    by (simp_all add: mem_cellsAtDistance)
  have "c \<noteq> (i, j)" using b(3) chebyshev_self [of i j] by auto
  then have "cellIndex c \<noteq> cellIndex (i, j)"
    using cellIndex_inj b(1,2) assms by (auto simp add: inj_on_def mem_boardCells)
  then have "p \<noteq> i * 7 + j" using c(2) by (simp add: cellIndex_def)
  moreover have "p < 49" using c(2) b(1,2) by (simp add: cellIndex_def)
  ultimately show "(get (placed s i j) p = otherPlayer s) = (get s p = otherPlayer s)"
    by (simp add: get_placed [OF assms])
qed

lemma capturedBy_eq:
  "int (length (filter (\<lambda>p. get s p = otherPlayer s) (map cellIndex (cellsAtDistance 1 i j)))) =
     int (capturedBy s i j)"
  by (simp add: capturedBy_def filter_map comp_def holds_def [abs_def])

lemma index_eq: "j < 7 \<Longrightarrow> j2 < 7 \<Longrightarrow> (i2 * 7 + j2 = i * 7 + j) = (i2 = i \<and> j2 = (j::nat))"
  by arith

lemma get_spawn:
  assumes "i < 7" "j < 7" "i2 < 7" "j2 < 7"
  shows "get (spawn s i j) (i2 * 7 + j2) =
     (if i2 = i \<and> j2 = j then movingPlayer s
      else if chebyshev i j i2 j2 = 1 \<and> get s (i2 * 7 + j2) = otherPlayer s then movingPlayer s
      else get s (i2 * 7 + j2))"
proof -
  have q: "i2 * 7 + j2 < 49" using assms by simp
  note e = index_eq [OF assms(2,4), of i2 i]
  have m: "(i2 * 7 + j2 \<in> set (guarded (around i j))) = (chebyshev i j i2 j2 = 1)"
    by (simp only: guarded_around [OF assms(1,2)] index_mem_cellsAtDistance [OF assms(3,4)])
  have "get (spawn s i j) (i2 * 7 + j2) =
        get (captures (otherPlayer s) (movingPlayer s) (around i j) (placed s i j)) (i2 * 7 + j2)"
    by (simp only: spawn_captures [OF assms(1,2)])
  also have "\<dots> =
        (if i2 * 7 + j2 \<in> set (guarded (around i j)) \<and> get (placed s i j) (i2 * 7 + j2) = otherPlayer s
         then movingPlayer s else get (placed s i j) (i2 * 7 + j2))"
    by (rule get_captures [OF guardedInRange_around [OF assms(1,2)] q movingPlayer_neq_otherPlayer])
  finally have "get (spawn s i j) (i2 * 7 + j2) =
        (if chebyshev i j i2 j2 = 1 \<and> get (placed s i j) (i2 * 7 + j2) = otherPlayer s
         then movingPlayer s else get (placed s i j) (i2 * 7 + j2))"
    unfolding m .
  then show ?thesis
    using movingPlayer_neq_otherPlayer [of s] chebyshev_self [of i j]
    unfolding get_placed [OF assms(1,2) q] e
    by auto
qed

lemma whiteScore_spawn:
  assumes "i < 7" "j < 7"
  shows "whiteScore (spawn s i j) =
     whiteScore s + (if whiteMoves s then 1 + int (capturedBy s i j) else - int (capturedBy s i j))"
proof -
  have d: "distinct (guarded (around i j))"
    by (simp only: guarded_around [OF assms] distinct_cellsAtDistance)
  show ?thesis
    unfolding spawn_captures [OF assms]
      whiteScore_captures [OF guardedInRange_around [OF assms] d movingPlayer_neq_otherPlayer]
      guarded_around [OF assms] captured_placed [OF assms] capturedBy_eq whiteScore_placed [OF assms]
    by (simp add: movingPlayer_def otherPlayer_def)
qed

lemma blackScore_spawn:
  assumes "i < 7" "j < 7"
  shows "blackScore (spawn s i j) =
     blackScore s + (if whiteMoves s then - int (capturedBy s i j) else 1 + int (capturedBy s i j))"
proof -
  have d: "distinct (guarded (around i j))"
    by (simp only: guarded_around [OF assms] distinct_cellsAtDistance)
  show ?thesis
    unfolding spawn_captures [OF assms]
      blackScore_captures [OF guardedInRange_around [OF assms] d movingPlayer_neq_otherPlayer]
      guarded_around [OF assms] captured_placed [OF assms] capturedBy_eq blackScore_placed [OF assms]
    by (simp add: movingPlayer_def otherPlayer_def)
qed

section \<open>The starting position, observed\<close>

lemma get_initial:
  "q < 49 \<Longrightarrow>
     get initial q =
       (if q = 0 \<or> q = 48 then White else if q = 6 \<or> q = 42 then Black else Empty)"
  by (auto simp add: initial_def get_setEntry get_Status0)

lemma whiteMoves_initial: "whiteMoves initial"
  by (simp add: initial_def whiteMoves_setEntry whiteMoves_Status0)

lemma scores_initial: "whiteScore initial = 2" "blackScore initial = 2"
  by (simp_all add: initial_def whiteScore_setEntry blackScore_setEntry get_setEntry get_Status0
        scores_Status0)

lemma movingPlayer_initial: "movingPlayer initial = White"
  by (simp add: movingPlayer_def whiteMoves_initial)

lemma otherPlayer_initial: "otherPlayer initial = Black"
  by (simp add: otherPlayer_def whiteMoves_initial)

section \<open>What spawn does\<close>

text \<open>
  Claim C3. For in-range \<open>(i, j)\<close>, \<open>spawn\<close> puts the mover's colour on \<open>(i, j)\<close>, switches
  the mover, and turns to the mover's colour exactly the cells at Chebyshev distance 1
  that are on the board and hold the other colour; all other cells, in particular every
  cell at distance 2 or more, keep their contents. The mover's count grows by one for
  the placement and by one for every captured neighbour, and the other count shrinks by
  the number of captured neighbours.
\<close>

theorem spawn_effect:
  assumes "i < boardSize" "j < boardSize"
  shows
    "get (spawn s i j) (i * boardSize + j) = movingPlayer s \<and>
     whiteMoves (spawn s i j) = (\<not> whiteMoves s) \<and>
     (\<forall>i2 j2. i2 < boardSize \<and> j2 < boardSize \<and> chebyshev i j i2 j2 = 1 \<longrightarrow>
        get (spawn s i j) (i2 * boardSize + j2) =
          (if get s (i2 * boardSize + j2) = otherPlayer s then movingPlayer s
           else get s (i2 * boardSize + j2))) \<and>
     (\<forall>i2 j2. i2 < boardSize \<and> j2 < boardSize \<and> 2 \<le> chebyshev i j i2 j2 \<longrightarrow>
        get (spawn s i j) (i2 * boardSize + j2) = get s (i2 * boardSize + j2)) \<and>
     whiteScore (spawn s i j) =
       whiteScore s + (if whiteMoves s then 1 + int (capturedBy s i j) else - int (capturedBy s i j)) \<and>
     blackScore (spawn s i j) =
       blackScore s + (if whiteMoves s then - int (capturedBy s i j) else 1 + int (capturedBy s i j))"
proof -
  have a: "get (spawn s i j) (i * boardSize + j) = movingPlayer s"
    using get_spawn [OF assms assms] by simp
  have b: "get (spawn s i j) (i2 * boardSize + j2) =
          (if get s (i2 * boardSize + j2) = otherPlayer s then movingPlayer s
           else get s (i2 * boardSize + j2))"
    if "i2 < boardSize" "j2 < boardSize" "chebyshev i j i2 j2 = 1" for i2 j2
  proof -
    have "\<not> (i2 = i \<and> j2 = j)" using that(3) chebyshev_self [of i j] by auto
    then show ?thesis using get_spawn [OF assms that(1,2), of s] that(3) by auto
  qed
  have c: "get (spawn s i j) (i2 * boardSize + j2) = get s (i2 * boardSize + j2)"
    if "i2 < boardSize" "j2 < boardSize" "2 \<le> chebyshev i j i2 j2" for i2 j2
  proof -
    have "\<not> (i2 = i \<and> j2 = j)" using that(3) chebyshev_self [of i j] by auto
    then show ?thesis using get_spawn [OF assms that(1,2), of s] that(3) by auto
  qed
  show ?thesis
    using a b c whiteMoves_spawn [OF assms] whiteScore_spawn [OF assms] blackScore_spawn [OF assms]
    by blast
qed

lemma neighbours_0_1: "cellsAtDistance 1 0 1 = [(0, 0), (0, 2), (1, 0), (1, 1), (1, 2)]"
  by code_simp

theorem spawn_effect_witness:
  "get (spawn (setEntry initial 8 Black) 0 1) 1 = White \<and>
   \<not> whiteMoves (spawn (setEntry initial 8 Black) 0 1) \<and>
   get (spawn (setEntry initial 8 Black) 0 1) 8 = White \<and>
   get (spawn (setEntry initial 8 Black) 0 1) 9 = Empty \<and>
   get (spawn (setEntry initial 8 Black) 0 1) 6 = Black \<and>
   whiteScore (spawn (setEntry initial 8 Black) 0 1) = 4 \<and>
   blackScore (spawn (setEntry initial 8 Black) 0 1) = 2"
proof -
  define s where "s = setEntry initial 8 Black"
  have g: "get s q = (if q = 8 then Black else get initial q)" if "q < 49" for q
    using that by (auto simp add: s_def get_setEntry)
  have w: "whiteMoves s" by (simp add: s_def whiteMoves_setEntry whiteMoves_initial)
  have sc: "whiteScore s = 2" "blackScore s = 3"
    by (simp_all add: s_def whiteScore_setEntry blackScore_setEntry get_initial scores_initial)
  have k: "capturedBy s 0 1 = 1"
    unfolding capturedBy_def neighbours_0_1
    by (simp add: holds_def cellIndex_def otherPlayer_def w g get_initial)
  have r: "(0::nat) < boardSize" "(1::nat) < boardSize" by simp_all
  note E = spawn_effect [OF r, of s]
  note near = E [THEN conjunct2, THEN conjunct2, THEN conjunct1, rule_format]
  note far = E [THEN conjunct2, THEN conjunct2, THEN conjunct2, THEN conjunct1, rule_format]
  have "get (spawn s 0 1) 1 = movingPlayer s"
    using E by simp
  moreover have "whiteMoves (spawn s 0 1) = (\<not> whiteMoves s)"
    using E by blast
  moreover have "get (spawn s 0 1) 8 = (if get s 8 = otherPlayer s then movingPlayer s else get s 8)"
    using near [of 1 1] by (simp add: chebyshev_def)
  moreover have "get (spawn s 0 1) 9 = (if get s 9 = otherPlayer s then movingPlayer s else get s 9)"
    using near [of 1 2] by (simp add: chebyshev_def)
  moreover have "get (spawn s 0 1) 6 = get s 6"
    using far [of 0 6] by (simp add: chebyshev_def)
  moreover have "whiteScore (spawn s 0 1) =
       whiteScore s + (if whiteMoves s then 1 + int (capturedBy s 0 1) else - int (capturedBy s 0 1))"
    using E by blast
  moreover have "blackScore (spawn s 0 1) =
       blackScore s + (if whiteMoves s then - int (capturedBy s 0 1) else 1 + int (capturedBy s 0 1))"
    using E by blast
  ultimately show ?thesis
    unfolding s_def [symmetric]
    by (simp add: g get_initial w sc k movingPlayer_def otherPlayer_def del: One_nat_def)
qed

section \<open>The statuses generated for one cell\<close>

lemma emitAll_Nil: "emitAll out [] = out"
  by (simp add: emitAll_def)

lemma emitAll_emitAll: "emitAll (emitAll out xs) ys = emitAll out (xs @ ys)"
  by (simp add: emitAll_def)

lemma emitWhen_emitAll: "emitWhen c x out = emitAll out (whenList c x)"
  by (simp add: emitWhen_def emitAll_def emit_def whenList_def)

lemma emitAll_if: "(if c then emitAll out xs else emitAll out ys) = emitAll out (if c then xs else ys)"
  by simp

lemma emitAll_if_left: "(if c then emitAll out xs else out) = emitAll out (if c then xs else [])"
  by (simp add: emitAll_Nil)

lemma whenList_simps: "whenList True x = [x]" "whenList False x = []"
  by (simp_all add: whenList_def)

text \<open>The body of the loops with every \<open>if (\<dots>) { \<dots> emit \<dots> }\<close> block as \<open>emitWhen\<close>.\<close>

lemma cellStatuses_emitWhen:
  "cellStatuses start i j out0 =
     (let mp = movingPlayer start in
      if get start (i * boardSize + j) \<noteq> Empty then out0
      else
        let out1 =
              emitWhen ((i > 0 \<and> (get start ((i - 1) * boardSize + j) = mp \<or> (j > 0 \<and> get start ((i - 1) * boardSize + j - 1) = mp) \<or> (j < boardSize - 1 \<and> get start ((i - 1) * boardSize + j + 1) = mp))) \<or> ((j > 0 \<and> get start (i * boardSize + j - 1) = mp) \<or> (j < boardSize - 1 \<and> get start (i * boardSize + j + 1) = mp)) \<or> (i < boardSize - 1 \<and> (get start ((i + 1) * boardSize + j) = mp \<or> (j > 0 \<and> get start ((i + 1) * boardSize + j - 1) = mp) \<or> (j < boardSize - 1 \<and> get start ((i + 1) * boardSize + j + 1) = mp)))) (spawn start i j) out0;
            out2 =
              (if i > 1 then
                 (let a =
                        (if j > 0 then
                           (let a1 = emitWhen (j > 1 \<and> get start ((i - 2) * boardSize + j - 2) = mp) (jumpCopy start ((i - 2) * boardSize + j - 2) i j) out1;
                                a2 = emitWhen (get start ((i - 2) * boardSize + j - 1) = mp) (jumpCopy start ((i - 2) * boardSize + j - 1) i j) a1
                            in a2)
                         else out1);
                      b = emitWhen (get start ((i - 2) * boardSize + j) = mp) (jumpCopy start ((i - 2) * boardSize + j) i j) a;
                      c =
                        (if j < boardSize - 1 then
                           (let c1 = emitWhen (get start ((i - 2) * boardSize + j + 1) = mp) (jumpCopy start ((i - 2) * boardSize + j + 1) i j) b;
                                c2 = emitWhen (j < boardSize - 2 \<and> get start ((i - 2) * boardSize + j + 2) = mp) (jumpCopy start ((i - 2) * boardSize + j + 2) i j) c1
                            in c2)
                         else b)
                  in c)
               else out1);
            out3 =
              (if i > 0 then
                 (let a = emitWhen (j > 1 \<and> get start ((i - 1) * boardSize + j - 2) = mp) (jumpCopy start ((i - 1) * boardSize + j - 2) i j) out2;
                      b = emitWhen (j < boardSize - 2 \<and> get start ((i - 1) * boardSize + j + 2) = mp) (jumpCopy start ((i - 1) * boardSize + j + 2) i j) a
                  in b)
               else out2);
            out4 = emitWhen (j > 1 \<and> get start (i * boardSize + j - 2) = mp) (jumpCopy start (i * boardSize + j - 2) i j) out3;
            out5 = emitWhen (j < boardSize - 2 \<and> get start (i * boardSize + j + 2) = mp) (jumpCopy start (i * boardSize + j + 2) i j) out4;
            out6 =
              (if i < boardSize - 1 then
                 (let a = emitWhen (j > 1 \<and> get start ((i + 1) * boardSize + j - 2) = mp) (jumpCopy start ((i + 1) * boardSize + j - 2) i j) out5;
                      b = emitWhen (j < boardSize - 2 \<and> get start ((i + 1) * boardSize + j + 2) = mp) (jumpCopy start ((i + 1) * boardSize + j + 2) i j) a
                  in b)
               else out5);
            out7 =
              (if i < boardSize - 2 then
                 (let a =
                        (if j > 0 then
                           (let a1 = emitWhen (j > 1 \<and> get start ((i + 2) * boardSize + j - 2) = mp) (jumpCopy start ((i + 2) * boardSize + j - 2) i j) out6;
                                a2 = emitWhen (get start ((i + 2) * boardSize + j - 1) = mp) (jumpCopy start ((i + 2) * boardSize + j - 1) i j) a1
                            in a2)
                         else out6);
                      b = emitWhen (get start ((i + 2) * boardSize + j) = mp) (jumpCopy start ((i + 2) * boardSize + j) i j) a;
                      c =
                        (if j < boardSize - 1 then
                           (let c1 = emitWhen (get start ((i + 2) * boardSize + j + 1) = mp) (jumpCopy start ((i + 2) * boardSize + j + 1) i j) b;
                                c2 = emitWhen (j < boardSize - 2 \<and> get start ((i + 2) * boardSize + j + 2) = mp) (jumpCopy start ((i + 2) * boardSize + j + 2) i j) c1
                            in c2)
                         else b)
                  in c)
               else out6)
        in out7)"
  by (simp only: cellStatuses_def emitWhen_def)

lemma spawn_test:
  "((i > 0 \<and>
       (get start ((i - 1) * boardSize + j) = mp \<or>
        (j > 0 \<and> get start ((i - 1) * boardSize + j - 1) = mp) \<or>
        (j < boardSize - 1 \<and> get start ((i - 1) * boardSize + j + 1) = mp))) \<or>
    ((j > 0 \<and> get start (i * boardSize + j - 1) = mp) \<or>
     (j < boardSize - 1 \<and> get start (i * boardSize + j + 1) = mp)) \<or>
    (i < boardSize - 1 \<and>
       (get start ((i + 1) * boardSize + j) = mp \<or>
        (j > 0 \<and> get start ((i + 1) * boardSize + j - 1) = mp) \<or>
        (j < boardSize - 1 \<and> get start ((i + 1) * boardSize + j + 1) = mp)))) =
   list_ex (\<lambda>gp. fst gp \<and> get start (snd gp) = mp) (around i j)"
  unfolding around_def list_ex_Cons_iff list_ex_Nil_iff fst_conv snd_conv by blast


lemma cellStatuses_list: "cellStatuses start i j out0 = emitAll out0 (cellList start i j)"
proof -
  define mp where "mp = movingPlayer start"
  define W where "W = (\<lambda>gp. whenList (fst gp \<and> get start (snd gp) = mp) (jumpCopy start (snd gp) i j))"
  define out1 where "out1 = emitWhen ((i > 0 \<and> (get start ((i - 1) * boardSize + j) = mp \<or> (j > 0 \<and> get start ((i - 1) * boardSize + j - 1) = mp) \<or> (j < boardSize - 1 \<and> get start ((i - 1) * boardSize + j + 1) = mp))) \<or> ((j > 0 \<and> get start (i * boardSize + j - 1) = mp) \<or> (j < boardSize - 1 \<and> get start (i * boardSize + j + 1) = mp)) \<or> (i < boardSize - 1 \<and> (get start ((i + 1) * boardSize + j) = mp \<or> (j > 0 \<and> get start ((i + 1) * boardSize + j - 1) = mp) \<or> (j < boardSize - 1 \<and> get start ((i + 1) * boardSize + j + 1) = mp)))) (spawn start i j) out0"
  define out2 where "out2 = (if i > 1 then (let a = (if j > 0 then (let a1 = emitWhen (j > 1 \<and> get start ((i - 2) * boardSize + j - 2) = mp) (jumpCopy start ((i - 2) * boardSize + j - 2) i j) out1; a2 = emitWhen (get start ((i - 2) * boardSize + j - 1) = mp) (jumpCopy start ((i - 2) * boardSize + j - 1) i j) a1 in a2) else out1); b = emitWhen (get start ((i - 2) * boardSize + j) = mp) (jumpCopy start ((i - 2) * boardSize + j) i j) a; c = (if j < boardSize - 1 then (let c1 = emitWhen (get start ((i - 2) * boardSize + j + 1) = mp) (jumpCopy start ((i - 2) * boardSize + j + 1) i j) b; c2 = emitWhen (j < boardSize - 2 \<and> get start ((i - 2) * boardSize + j + 2) = mp) (jumpCopy start ((i - 2) * boardSize + j + 2) i j) c1 in c2) else b) in c) else out1)"
  define out3 where "out3 = (if i > 0 then (let a = emitWhen (j > 1 \<and> get start ((i - 1) * boardSize + j - 2) = mp) (jumpCopy start ((i - 1) * boardSize + j - 2) i j) out2; b = emitWhen (j < boardSize - 2 \<and> get start ((i - 1) * boardSize + j + 2) = mp) (jumpCopy start ((i - 1) * boardSize + j + 2) i j) a in b) else out2)"
  define out4 where "out4 = emitWhen (j > 1 \<and> get start (i * boardSize + j - 2) = mp) (jumpCopy start (i * boardSize + j - 2) i j) out3"
  define out5 where "out5 = emitWhen (j < boardSize - 2 \<and> get start (i * boardSize + j + 2) = mp) (jumpCopy start (i * boardSize + j + 2) i j) out4"
  define out6 where "out6 = (if i < boardSize - 1 then (let a = emitWhen (j > 1 \<and> get start ((i + 1) * boardSize + j - 2) = mp) (jumpCopy start ((i + 1) * boardSize + j - 2) i j) out5; b = emitWhen (j < boardSize - 2 \<and> get start ((i + 1) * boardSize + j + 2) = mp) (jumpCopy start ((i + 1) * boardSize + j + 2) i j) a in b) else out5)"
  define out7 where "out7 = (if i < boardSize - 2 then (let a = (if j > 0 then (let a1 = emitWhen (j > 1 \<and> get start ((i + 2) * boardSize + j - 2) = mp) (jumpCopy start ((i + 2) * boardSize + j - 2) i j) out6; a2 = emitWhen (get start ((i + 2) * boardSize + j - 1) = mp) (jumpCopy start ((i + 2) * boardSize + j - 1) i j) a1 in a2) else out6); b = emitWhen (get start ((i + 2) * boardSize + j) = mp) (jumpCopy start ((i + 2) * boardSize + j) i j) a; c = (if j < boardSize - 1 then (let c1 = emitWhen (get start ((i + 2) * boardSize + j + 1) = mp) (jumpCopy start ((i + 2) * boardSize + j + 1) i j) b; c2 = emitWhen (j < boardSize - 2 \<and> get start ((i + 2) * boardSize + j + 2) = mp) (jumpCopy start ((i + 2) * boardSize + j + 2) i j) c1 in c2) else b) in c) else out6)"
  have whole: "cellStatuses start i j out0 =
      (if get start (i * boardSize + j) \<noteq> Empty then out0 else out7)"
    by (simp only: cellStatuses_emitWhen Let_def out7_def out6_def out5_def out4_def out3_def
          out2_def out1_def mp_def)
  have o1: "out1 = emitAll out0
      (whenList (list_ex (\<lambda>gp. fst gp \<and> get start (snd gp) = mp) (around i j)) (spawn start i j))"
    unfolding out1_def spawn_test by (rule emitWhen_emitAll)
  have o2: "out2 = emitAll out1 (concat (map W (take 5 (jumpAround i j))))"
    unfolding out2_def jumpAround_def W_def
    by (simp add: Let_def emitWhen_emitAll emitAll_emitAll whenList_simps emitAll_Nil)
  have o3: "out3 = emitAll out2 (concat (map W (take 2 (drop 5 (jumpAround i j)))))"
    unfolding out3_def jumpAround_def W_def
    by (simp add: Let_def emitWhen_emitAll emitAll_emitAll whenList_simps emitAll_Nil)
  have o4: "out4 = emitAll out3 (concat (map W (take 1 (drop 7 (jumpAround i j)))))"
    unfolding out4_def jumpAround_def W_def
    by (simp add: Let_def emitWhen_emitAll emitAll_emitAll whenList_simps emitAll_Nil)
  have o5: "out5 = emitAll out4 (concat (map W (take 1 (drop 8 (jumpAround i j)))))"
    unfolding out5_def jumpAround_def W_def
    by (simp add: Let_def emitWhen_emitAll emitAll_emitAll whenList_simps emitAll_Nil)
  have o6: "out6 = emitAll out5 (concat (map W (take 2 (drop 9 (jumpAround i j)))))"
    unfolding out6_def jumpAround_def W_def
    by (simp add: Let_def emitWhen_emitAll emitAll_emitAll whenList_simps emitAll_Nil)
  have o7: "out7 = emitAll out6 (concat (map W (drop 11 (jumpAround i j))))"
    unfolding out7_def jumpAround_def W_def
    by (simp add: Let_def emitWhen_emitAll emitAll_emitAll whenList_simps emitAll_Nil)
  have parts:
     "take 5 (jumpAround i j) @ take 2 (drop 5 (jumpAround i j)) @ take 1 (drop 7 (jumpAround i j)) @
      take 1 (drop 8 (jumpAround i j)) @ take 2 (drop 9 (jumpAround i j)) @ drop 11 (jumpAround i j) =
      jumpAround i j"
    by (simp add: jumpAround_def)
  have "out7 = emitAll out0
      (whenList (list_ex (\<lambda>gp. fst gp \<and> get start (snd gp) = mp) (around i j)) (spawn start i j) @
       concat (map W (take 5 (jumpAround i j) @ take 2 (drop 5 (jumpAround i j)) @
         take 1 (drop 7 (jumpAround i j)) @ take 1 (drop 8 (jumpAround i j)) @
         take 2 (drop 9 (jumpAround i j)) @ drop 11 (jumpAround i j))))"
    unfolding o7 o6 o5 o4 o3 o2 o1 emitAll_emitAll by simp
  then have "out7 = emitAll out0
      (whenList (list_ex (\<lambda>gp. fst gp \<and> get start (snd gp) = mp) (around i j)) (spawn start i j) @
       concat (map W (jumpAround i j)))"
    unfolding parts .
  then show ?thesis
    unfolding whole cellList_def W_def mp_def by (simp add: emitAll_Nil)
qed

section \<open>The generated statuses are the legal successors\<close>

lemma fold_emitAll:
  "fold (\<lambda>x out. emitAll out (f x)) xs out = emitAll out (concat (map f xs))"
  by (induction xs arbitrary: out) (simp_all add: emitAll_Nil emitAll_emitAll)

lemma boardCells_concat:
  "concat (map (\<lambda>i. concat (map (\<lambda>j. f i j) [0..<boardSize])) [0..<boardSize]) =
     concat (map (\<lambda>c. f (fst c) (snd c)) boardCells)"
proof -
  have "concat (map (\<lambda>i. concat (map (\<lambda>j. f i j) ys)) xs) =
        concat (map (\<lambda>c. f (fst c) (snd c)) (concat (map (\<lambda>i. map (\<lambda>j. (i, j)) ys) xs)))"
    for xs ys :: "nat list"
    by (induction xs) (simp_all add: comp_def)
  then show ?thesis by (simp only: boardCells_def)
qed

lemma generateStatuses_list:
  "generateStatuses start =
     emitAll (0, []) (concat (map (\<lambda>c. cellList start (fst c) (snd c)) boardCells))"
  unfolding generateStatuses_def cellStatuses_list fold_emitAll boardCells_concat ..

lemma whenList_concat:
  "concat (map (\<lambda>gp. whenList (fst gp \<and> P (snd gp)) (f (snd gp))) gps) =
     map f (filter P (guarded gps))"
  by (induction gps) (auto simp add: whenList_def guarded_def)

lemma list_ex_guarded:
  "list_ex (\<lambda>gp. fst gp \<and> P (snd gp)) gps = list_ex P (guarded gps)"
  by (induction gps) (auto simp add: guarded_def)

lemma guarded_jumpAround_all:
  "list_all (\<lambda>c. guarded (jumpAround (fst c) (snd c)) =
                   map cellIndex (cellsAtDistance 2 (fst c) (snd c))) boardCells"
  by code_simp

lemma guarded_jumpAround:
  assumes "i < 7" "j < 7"
  shows "guarded (jumpAround i j) = map cellIndex (cellsAtDistance 2 i j)"
proof -
  have "(i, j) \<in> set boardCells" using assms by (simp add: mem_boardCells)
  with guarded_jumpAround_all show ?thesis
    by (auto simp only: list_all_iff fst_conv snd_conv)
qed

lemma cellList_legalInto:
  assumes "i < 7" "j < 7"
  shows "cellList s i j = (if holds s Empty (i, j) then legalInto s i j else [])"
proof -
  have a: "list_ex (\<lambda>gp. fst gp \<and> get s (snd gp) = movingPlayer s) (around i j) =
           list_ex (holds s (movingPlayer s)) (cellsAtDistance 1 i j)"
    unfolding list_ex_guarded [of "\<lambda>p. get s p = movingPlayer s"] guarded_around [OF assms]
    by (simp add: list_ex_iff holds_def)
  have b: "concat (map (\<lambda>gp. whenList (fst gp \<and> get s (snd gp) = movingPlayer s)
                             (jumpCopy s (snd gp) i j)) (jumpAround i j)) =
           map (\<lambda>c. spawn (setEntry s (cellIndex c) Empty) i j)
             (filter (holds s (movingPlayer s)) (cellsAtDistance 2 i j))"
    unfolding whenList_concat [of "\<lambda>p. get s p = movingPlayer s" "\<lambda>p. jumpCopy s p i j"]
      guarded_jumpAround [OF assms]
    by (simp add: filter_map comp_def holds_def [abs_def] jumpCopy_def)
  show ?thesis
    unfolding cellList_def a b legalInto_def
    by (simp add: holds_def cellIndex_def whenList_def)
qed

lemma cellLists_legalSuccessors:
  "concat (map (\<lambda>c. cellList s (fst c) (snd c)) boardCells) = legalSuccessors s"
proof -
  have "map (\<lambda>c. cellList s (fst c) (snd c)) boardCells =
        map (\<lambda>c. if holds s Empty c then legalInto s (fst c) (snd c) else []) boardCells"
    by (rule map_cong [OF refl]) (simp add: mem_boardCells cellList_legalInto)
  then show ?thesis unfolding legalSuccessors_def by (rule arg_cong)
qed

lemma generateStatuses_eq:
  "generateStatuses s = (length (legalSuccessors s), legalSuccessors s)"
  by (simp add: generateStatuses_list cellLists_legalSuccessors emitAll_def)

text \<open>
  Claim C2. \<open>generateStatuses\<close> writes exactly the legal successors and returns their
  number: for every Empty cell, one spawn if some cell at Chebyshev distance 1 holds the
  mover's colour, and one jump (the origin set to Empty, then the spawn) for every cell
  at distance exactly 2 that holds the mover's colour, whether or not the spawn is legal;
  nothing else. The statuses are even written in the order of \<open>legalSuccessors\<close>.
\<close>

theorem generateStatuses_legalSuccessors:
  "generateStatuses s = (length (legalSuccessors s), legalSuccessors s)"
  by (rule generateStatuses_eq)

section \<open>How many statuses are generated\<close>

lemma length_whenList_concat:
  "length (concat (map (\<lambda>gp. whenList (c gp) (f gp)) gps)) \<le> length gps"
  by (induction gps) (auto simp add: whenList_def)

lemma length_cellList: "length (cellList s i j) \<le> 17"
proof -
  have "length (concat (map (\<lambda>gp. whenList (fst gp \<and> get s (snd gp) = movingPlayer s)
                             (jumpCopy s (snd gp) i j)) (jumpAround i j))) \<le> length (jumpAround i j)"
    by (rule length_whenList_concat)
  also have "length (jumpAround i j) = 16" by (simp add: jumpAround_def)
  finally show ?thesis
    by (simp add: cellList_def whenList_def)
qed

lemma cellList_occupied: "get s (i * boardSize + j) \<noteq> Empty \<Longrightarrow> cellList s i j = []"
  by (simp add: cellList_def)

lemma guardedInRange_jumpAround: "i < 7 \<Longrightarrow> j < 7 \<Longrightarrow> guardedInRange (jumpAround i j)"
  unfolding guardedInRange_def jumpAround_def by (simp del: One_nat_def) arith

lemma guarded_less:
  "guardedInRange gps \<Longrightarrow> p \<in> set (guarded gps) \<Longrightarrow> p < 49"
  by (auto simp add: guardedInRange_def guarded_def list_all_iff)

lemma cellList_all_Empty:
  assumes "\<forall>p<49. get s p = Empty" "i < 7" "j < 7"
  shows "cellList s i j = []"
proof -
  have mp: "movingPlayer s \<noteq> Empty" by (simp add: movingPlayer_def)
  have a: "filter (\<lambda>p. get s p = movingPlayer s) (guarded gps) = []" if "guardedInRange gps" for gps
    using assms(1) mp guarded_less [OF that] by (auto simp add: filter_empty_conv)
  have "\<not> list_ex (\<lambda>p. get s p = movingPlayer s) (guarded (around i j))"
    using a [OF guardedInRange_around [OF assms(2,3)]]
    by (simp add: list_ex_iff filter_empty_conv)
  moreover have "list_ex (\<lambda>gp. fst gp \<and> get s (snd gp) = movingPlayer s) (around i j) =
      list_ex (\<lambda>p. get s p = movingPlayer s) (guarded (around i j))"
    by (rule list_ex_guarded)
  ultimately have b: "\<not> list_ex (\<lambda>gp. fst gp \<and> get s (snd gp) = movingPlayer s) (around i j)"
    by blast
  have c: "concat (map (\<lambda>gp. whenList (fst gp \<and> get s (snd gp) = movingPlayer s)
                             (jumpCopy s (snd gp) i j)) (jumpAround i j)) = []"
    unfolding whenList_concat [of "\<lambda>p. get s p = movingPlayer s" "\<lambda>p. jumpCopy s p i j"]
      a [OF guardedInRange_jumpAround [OF assms(2,3)]] by simp
  show ?thesis
    unfolding cellList_def c using b by (simp add: whenList_def)
qed

lemma length_concat_le:
  "\<forall>x\<in>set xs. length (f x) \<le> m \<Longrightarrow> length (concat (map f xs)) \<le> m * length xs"
  by (induction xs) (auto simp add: add_le_mono)

lemma length_concat_bound:
  assumes "\<And>x. x \<in> set xs \<Longrightarrow> length (f x) \<le> m" "y \<in> set xs" "f y = []"
  shows "length (concat (map f xs)) \<le> m * (length xs - 1)"
  using assms
proof (induction xs)
  case Nil
  then show ?case by simp
next
  case (Cons x xs)
  have all: "length (concat (map f xs)) \<le> m * length xs"
    using Cons.prems(1) by (intro length_concat_le) simp
  show ?case
  proof (cases "f x = []")
    case True
    then show ?thesis using all by simp
  next
    case False
    with Cons.prems have y: "y \<in> set xs" by auto
    then have "xs \<noteq> []" by auto
    then have l: "length xs = Suc (length xs - 1)" by simp
    have "length (concat (map f xs)) \<le> m * (length xs - 1)"
      using Cons.IH [OF Cons.prems(1) y Cons.prems(3)] by simp
    moreover have "length (f x) \<le> m" using Cons.prems(1) by simp
    ultimately have "length (f x) + length (concat (map f xs)) \<le> m + m * (length xs - 1)"
      by (rule add_le_mono [rotated])
    also have "\<dots> = m * length xs" using l by (metis mult_Suc_right)
    finally show ?thesis by simp
  qed
qed

lemma length_boardCells: "length boardCells = 49"
  by (simp add: boardCells_eq)

lemma generateStatuses_bound: "fst (generateStatuses s) \<le> 816"
proof (cases "\<forall>p<49. get s p = Empty")
  case True
  have e: "concat (map (\<lambda>c. cellList s (fst c) (snd c)) boardCells) = []"
    by (simp add: mem_boardCells cellList_all_Empty [OF True])
  show ?thesis unfolding generateStatuses_list e by (simp add: emitAll_def)
next
  case False
  then obtain p where p: "p < 49" "get s p \<noteq> Empty" by auto
  then have "p \<in> set (map cellIndex boardCells)" by (simp only: cellIndex_boardCells) simp
  then obtain c where c: "c \<in> set boardCells" "p = cellIndex c" by auto
  have e: "cellList s (fst c) (snd c) = []"
    using p(2) c(2) by (simp add: cellList_occupied cellIndex_def)
  have "length (concat (map (\<lambda>c. cellList s (fst c) (snd c)) boardCells)) \<le> 17 * (length boardCells - 1)"
    by (rule length_concat_bound [where f = "\<lambda>c. cellList s (fst c) (snd c)" and y = c])
      (simp_all add: length_cellList c(1) e)
  then show ?thesis
    by (simp add: generateStatuses_list emitAll_def length_boardCells)
qed

text \<open>
  Claim C7. The number of generated statuses never exceeds the capacity
  \<open>upperLimitMoves = N\<^sup>2 + 16 N\<^sup>2\<close>; the statuses written are as many as the number returned,
  so a buffer of that size is not overrun, and the assertion \<open>len < moves.size()\<close> of
  \<open>minimax\<close> holds.
\<close>

theorem generateStatuses_within_capacity:
  "fst (generateStatuses s) \<le> upperLimitMoves \<and>
   length (snd (generateStatuses s)) = fst (generateStatuses s) \<and>
   minimaxAssertHolds s"
  using generateStatuses_bound [of s]
  by (simp add: minimaxAssertHolds_def upperLimitMoves_def generateStatuses_list emitAll_def)

section \<open>The statuses generated from the starting position and from the empty board\<close>

lemma generated_initial:
  "generateStatuses initial =
     (16,
      [spawn initial 0 1, jumpCopy initial 0 0 2, spawn initial 1 0, spawn initial 1 1,
       jumpCopy initial 0 1 2, jumpCopy initial 0 2 0, jumpCopy initial 0 2 1, jumpCopy initial 0 2 2,
       jumpCopy initial 48 4 4, jumpCopy initial 48 4 5, jumpCopy initial 48 4 6,
       jumpCopy initial 48 5 4, spawn initial 5 5, spawn initial 5 6,
       jumpCopy initial 48 6 4, spawn initial 6 5])"
proof -
  have "concat (map (\<lambda>c. cellList initial (fst c) (snd c)) boardCells) =
     [spawn initial 0 1, jumpCopy initial 0 0 2, spawn initial 1 0, spawn initial 1 1,
      jumpCopy initial 0 1 2, jumpCopy initial 0 2 0, jumpCopy initial 0 2 1, jumpCopy initial 0 2 2,
      jumpCopy initial 48 4 4, jumpCopy initial 48 4 5, jumpCopy initial 48 4 6,
      jumpCopy initial 48 5 4, spawn initial 5 5, spawn initial 5 6,
      jumpCopy initial 48 6 4, spawn initial 6 5]"
    by (simp add: boardCells_eq cellList_def get_initial around_def jumpAround_def
          movingPlayer_initial whenList_def)
  then show ?thesis
    unfolding generateStatuses_list by (simp add: emitAll_def)
qed

lemma generated_Status0: "generateStatuses Status0 = (0, [])"
proof -
  have "concat (map (\<lambda>c. cellList Status0 (fst c) (snd c)) boardCells) = []"
    by (simp add: mem_boardCells cellList_all_Empty get_Status0)
  then show ?thesis
    unfolding generateStatuses_list by (simp add: emitAll_def)
qed

theorem generateStatuses_legalSuccessors_witness:
  "generateStatuses initial = (length (legalSuccessors initial), legalSuccessors initial) \<and>
   length (legalSuccessors initial) = 16 \<and>
   hd (legalSuccessors initial) = spawn initial 0 1"
proof -
  have "legalSuccessors initial = snd (generateStatuses initial)"
    using generateStatuses_legalSuccessors [of initial] by simp
  then show ?thesis
    using generateStatuses_legalSuccessors [of initial]
    by (simp add: generated_initial del: One_nat_def)
qed

theorem generateStatuses_within_capacity_witness:
  "fst (generateStatuses initial) = 16 \<and> fst (generateStatuses initial) \<le> upperLimitMoves \<and>
   length (snd (generateStatuses initial)) = 16 \<and> minimaxAssertHolds initial"
  using generateStatuses_within_capacity [of initial] by (simp add: generated_initial)

section \<open>The successors, one by one\<close>

lemma successor_cases:
  assumes "t \<in> set (snd (generateStatuses s))"
  obtains i j where "i < 7" "j < 7" "get s (i * 7 + j) = Empty" "t = spawn s i j"
  | i j p where "i < 7" "j < 7" "get s (i * 7 + j) = Empty" "p < 49"
      "get s p = movingPlayer s" "t = spawn (setEntry s p Empty) i j"
proof -
  from assms have "t \<in> set (legalSuccessors s)"
    by (simp add: generateStatuses_eq)
  then obtain c where c: "c \<in> set boardCells" "holds s Empty c" "t \<in> set (legalInto s (fst c) (snd c))"
    by (auto simp add: legalSuccessors_def split: if_splits)
  have b: "fst c < 7" "snd c < 7" "get s (fst c * 7 + snd c) = Empty"
    using c(1,2) by (simp_all add: mem_boardCells holds_def cellIndex_def)
  from c(3) consider "t = spawn s (fst c) (snd c)"
    | d where "d \<in> set (cellsAtDistance 2 (fst c) (snd c))" "holds s (movingPlayer s) d"
        "t = spawn (setEntry s (cellIndex d) Empty) (fst c) (snd c)"
    by (auto simp add: legalInto_def split: if_splits)
  then show ?thesis
  proof cases
    case 1
    then show ?thesis using that(1) b by blast
  next
    case 2
    have "cellIndex d < 49"
      using 2(1) by (intro cellIndex_less) (simp add: cellsAtDistance_def)
    then show ?thesis using that(2) b 2 by (simp add: holds_def)
  qed
qed

lemma whiteMoves_successor:
  "t \<in> set (snd (generateStatuses s)) \<Longrightarrow> whiteMoves t = (\<not> whiteMoves s)"
  by (erule successor_cases) (simp_all add: whiteMoves_spawn whiteMoves_setEntry)

section \<open>Counting cells\<close>

lemma count_update:
  assumes "p < n" "g p = v" "\<And>q. q \<noteq> p \<Longrightarrow> g q = f q"
  shows "length (filter (\<lambda>q. g q = e) [0..<n]) + (if f p = e then 1 else 0) =
         length (filter (\<lambda>q. f q = e) [0..<n]) + (if v = e then 1 else (0::nat))"
  using assms(1)
proof (induction n)
  case 0
  then show ?case by simp
next
  case (Suc n)
  show ?case
  proof (cases "p = n")
    case True
    have "filter (\<lambda>q. g q = e) [0..<n] = filter (\<lambda>q. f q = e) [0..<n]"
      using True by (intro filter_cong) (auto simp add: assms(3))
    then show ?thesis using True assms(2) by simp
  next
    case False
    with Suc.prems have "p < n" by simp
    from Suc.IH [OF this] assms(3) [of n] False show ?thesis
      by (cases "f p = e"; cases "v = e"; cases "f n = e") simp_all
  qed
qed

lemma countCells_cong:
  "(\<And>q. q < 49 \<Longrightarrow> get t q = get s q) \<Longrightarrow> countCells t e = countCells s e"
  unfolding countCells_def by (rule arg_cong [where f = length], rule filter_cong) simp_all

lemma countCells_update:
  assumes "p < 49" "\<And>q. q < 49 \<Longrightarrow> get t q = (if q = p then v else get s q)"
  shows "int (countCells t e) =
         int (countCells s e) + (if v = e then 1 else 0) - (if get s p = e then 1 else 0)"
proof -
  define g where "g = (\<lambda>q. if q < 49 then get t q else get s q)"
  have "filter (\<lambda>q. get t q = e) [0..<49] = filter (\<lambda>q. g q = e) [0..<49]"
    by (rule filter_cong) (simp_all add: g_def)
  moreover have "g p = v" using assms by (simp add: g_def)
  moreover have "g q = get s q" if "q \<noteq> p" for q using that assms(2) by (simp add: g_def)
  ultimately have "countCells t e + (if get s p = e then 1 else 0) =
             countCells s e + (if v = e then 1 else 0)"
    using count_update [of p 49 g v "get s" e] assms(1) by (simp add: countCells_def)
  then show ?thesis by (simp split: if_splits)
qed

lemma countCells_setEntry:
  "p < 49 \<Longrightarrow>
     int (countCells (setEntry s p v) e) =
       int (countCells s e) + (if v = e then 1 else 0) - (if get s p = e then 1 else 0)"
  by (rule countCells_update) (auto simp add: get_setEntry)

lemma countsMatch_setEntry: "countsMatch s \<Longrightarrow> p < 49 \<Longrightarrow> countsMatch (setEntry s p v)"
  by (simp add: countsMatch_def countCells_setEntry whiteScore_setEntry blackScore_setEntry)

lemma countsMatch_capture:
  "countsMatch s \<Longrightarrow> (g \<Longrightarrow> p < 49) \<Longrightarrow> countsMatch (capture g p np cp s)"
  by (simp add: capture_def countsMatch_setEntry)

lemma countsMatch_captures:
  "countsMatch s \<Longrightarrow> guardedInRange gps \<Longrightarrow> countsMatch (captures np cp gps s)"
proof (induction gps arbitrary: s)
  case Nil
  then show ?case by (simp add: captures_def)
next
  case (Cons gp gps)
  then have r: "guardedInRange gps" "fst gp \<Longrightarrow> snd gp < 49"
    by (simp_all add: guardedInRange_def)
  show ?case
    unfolding captures_Cons
    by (rule Cons.IH [OF countsMatch_capture [OF Cons.prems(1) r(2)] r(1)])
qed

lemma countsMatch_placed:
  assumes "countsMatch s" "i < 7" "j < 7" "get s (i * 7 + j) = Empty"
  shows "countsMatch (placed s i j)"
proof -
  have p: "i * 7 + j < 49" using assms(2,3) by simp
  have c: "int (countCells (placed s i j) e) =
      int (countCells s e) + (if movingPlayer s = e then 1 else 0) - (if get s (i * 7 + j) = e then 1 else 0)"
    for e
    by (rule countCells_update [OF p]) (simp add: get_placed [OF assms(2,3)])
  show ?thesis
    using assms(1,4)
    by (simp add: countsMatch_def c whiteScore_placed [OF assms(2,3)] blackScore_placed [OF assms(2,3)]
          movingPlayer_def)
qed

lemma countsMatch_spawn:
  "countsMatch s \<Longrightarrow> i < 7 \<Longrightarrow> j < 7 \<Longrightarrow> get s (i * 7 + j) = Empty \<Longrightarrow> countsMatch (spawn s i j)"
  by (simp add: spawn_captures countsMatch_captures countsMatch_placed guardedInRange_around)

lemma countsMatch_successor:
  assumes "countsMatch s" "t \<in> set (snd (generateStatuses s))"
  shows "countsMatch t"
  using assms(2)
proof (rule successor_cases)
  fix i j assume "i < 7" "j < 7" "get s (i * 7 + j) = Empty" "t = spawn s i j"
  then show ?thesis using assms(1) by (simp add: countsMatch_spawn)
next
  fix i j p
  assume a: "i < 7" "j < 7" "get s (i * 7 + j) = Empty" "p < 49" "get s p = movingPlayer s"
    "t = spawn (setEntry s p Empty) i j"
  have "get (setEntry s p Empty) (i * 7 + j) = Empty"
    using a(1-4) by (simp add: get_setEntry)
  then show ?thesis
    using a assms(1) by (simp add: countsMatch_spawn countsMatch_setEntry)
qed

lemma countsMatch_switchPlayerTurn: "countsMatch s \<Longrightarrow> countsMatch (switchPlayerTurn s)"
proof -
  assume a: "countsMatch s"
  have "countCells (switchPlayerTurn s) e = countCells s e" for e
    by (rule countCells_cong) (simp add: get_switchPlayerTurn)
  then show ?thesis using a by (simp add: countsMatch_def scores_switchPlayerTurn)
qed

section \<open>The side to move\<close>

lemma searchPath_alternates:
  "searchPath s ts \<Longrightarrow> k < length ts \<Longrightarrow>
     whiteMoves (ts ! k) = (if even k then \<not> whiteMoves s else whiteMoves s)"
proof (induction ts arbitrary: s k)
  case Nil
  then show ?case by simp
next
  case (Cons t ts)
  then have t: "whiteMoves t = (\<not> whiteMoves s)" "searchPath t ts"
    by (simp_all add: whiteMoves_successor)
  show ?case
  proof (cases k)
    case 0
    then show ?thesis using t(1) by simp
  next
    case (Suc k')
    with Cons.prems(2) have "k' < length ts" by simp
    from Cons.IH [OF t(2) this] show ?thesis using Suc t(1) by simp
  qed
qed

lemma minimax_no_moves:
  assumes "fst (generateStatuses s) = 0" "0 < level"
  shows "minimax srt depth s wantNext level alpha beta =
           (score s, if wantNext then Some (switchPlayerTurn s) else None)"
  using assms by (simp add: Let_def)

text \<open>
  Claim C10. Every status written by \<open>generateStatuses s\<close> has the other side to move,
  and so has the forced pass that the search builds when there is no move; so the side
  to move alternates along every path of the search tree.
\<close>

theorem mover_alternates:
  "(\<forall>t \<in> set (snd (generateStatuses s)). whiteMoves t = (\<not> whiteMoves s)) \<and>
   (fst (generateStatuses s) = 0 \<and> 0 < level \<longrightarrow>
      snd (minimax srt depth s True level alpha beta) = Some (switchPlayerTurn s)) \<and>
   whiteMoves (switchPlayerTurn s) = (\<not> whiteMoves s) \<and>
   (searchPath s ts \<longrightarrow>
      (\<forall>k < length ts. whiteMoves (ts ! k) = (if even k then \<not> whiteMoves s else whiteMoves s)))"
  by (simp add: whiteMoves_successor minimax_no_moves whiteMoves_switchPlayerTurn
        searchPath_alternates del: minimax.simps)

theorem mover_alternates_witness:
  "spawn initial 0 1 \<in> set (snd (generateStatuses initial)) \<and>
   \<not> whiteMoves (spawn initial 0 1) \<and>
   fst (generateStatuses Status0) = 0 \<and>
   snd (minimax insertionSort 2 Status0 True 2 (- 49) 49) = Some (switchPlayerTurn Status0) \<and>
   \<not> whiteMoves (switchPlayerTurn Status0) \<and>
   searchPath initial [spawn initial 0 1] \<and>
   whiteMoves ([spawn initial 0 1] ! 0) = (\<not> whiteMoves initial)"
proof -
  have m: "spawn initial 0 1 \<in> set (snd (generateStatuses initial))"
    by (simp add: generated_initial)
  have p: "searchPath initial [spawn initial 0 1]"
    using m by simp
  note M = mover_alternates [of initial 2 insertionSort 2 "- 49" 49 "[spawn initial 0 1]"]
  note Z = mover_alternates [of Status0 2 insertionSort 2 "- 49" 49 "[]"]
  have "whiteMoves (spawn initial 0 1) = (\<not> whiteMoves initial)"
    using M m by blast
  moreover have "whiteMoves ([spawn initial 0 1] ! 0) = (\<not> whiteMoves initial)"
    using M p by simp
  moreover have "snd (minimax insertionSort 2 Status0 True 2 (- 49) 49) = Some (switchPlayerTurn Status0)"
    using Z generated_Status0 by (simp del: minimax.simps)
  moreover have "whiteMoves (switchPlayerTurn Status0) = (\<not> whiteMoves Status0)"
    using Z by blast
  ultimately show ?thesis
    using m p by (simp add: whiteMoves_initial whiteMoves_Status0 generated_Status0 del: minimax.simps)
qed

section \<open>The forced pass\<close>

text \<open>
  Claim C6. On a status without legal moves the search, at any depth of at least 1,
  reports as successor a status with the same cells and the other side to move, and
  returns the score of the status it was given, whose board is unchanged.
\<close>

theorem pass_rule:
  assumes "fst (generateStatuses s) = 0" "1 \<le> depth"
  shows "\<exists>t. minimax srt depth s True depth (- int (boardSize * boardSize)) (int (boardSize * boardSize))
                = (score s, Some t) \<and>
             (\<forall>pos < boardSize * boardSize. get t pos = get s pos) \<and>
             whiteMoves t = (\<not> whiteMoves s) \<and>
             score t = score s"
proof -
  have "0 < depth" using assms(2) by simp
  from minimax_no_moves [OF assms(1) this, of srt depth True]
  have "minimax srt depth s True depth (- int (boardSize * boardSize)) (int (boardSize * boardSize))
          = (score s, Some (switchPlayerTurn s))"
    by (simp del: minimax.simps)
  moreover have "\<forall>pos < boardSize * boardSize. get (switchPlayerTurn s) pos = get s pos"
    by (simp add: get_switchPlayerTurn)
  moreover have "score (switchPlayerTurn s) = score s"
    by (simp add: score_def scores_switchPlayerTurn)
  ultimately show ?thesis
    using whiteMoves_switchPlayerTurn [of s] by blast
qed

text \<open>A status with pieces but without moves: Black alone on the board, White to move.\<close>

lemma generated_lonely: "generateStatuses (setEntry Status0 24 Black) = (0, [])"
proof -
  have g: "get (setEntry Status0 24 Black) q = (if q = 24 then Black else Empty)" if "q < 49" for q
    using that by (auto simp add: get_setEntry get_Status0)
  have m: "movingPlayer (setEntry Status0 24 Black) = White"
    by (simp add: movingPlayer_def whiteMoves_setEntry whiteMoves_Status0)
  have "concat (map (\<lambda>c. cellList (setEntry Status0 24 Black) (fst c) (snd c)) boardCells) = []"
    by (simp add: boardCells_eq cellList_def g m around_def jumpAround_def whenList_def)
  then show ?thesis
    unfolding generateStatuses_list by (simp add: emitAll_def)
qed

theorem pass_rule_witness:
  "fst (generateStatuses (setEntry Status0 24 Black)) = 0 \<and> (1::nat) \<le> 3 \<and>
   (\<exists>t. minimax insertionSort 3 (setEntry Status0 24 Black) True 3 (- 49) 49 = (- 49, Some t) \<and>
        get t 24 = Black \<and> get t 0 = Empty \<and> \<not> whiteMoves t \<and> score t = - 49)"
proof -
  define s where "s = setEntry Status0 24 Black"
  have z: "fst (generateStatuses s) = 0" by (simp add: s_def generated_lonely)
  have g: "get s q = (if q = 24 then Black else Empty)" if "q < 49" for q
    using that by (auto simp add: s_def get_setEntry get_Status0)
  have w: "whiteMoves s" by (simp add: s_def whiteMoves_setEntry whiteMoves_Status0)
  have sc: "score s = - 49"
    by (simp add: s_def score_def whiteScore_setEntry blackScore_setEntry get_Status0 scores_Status0)
  from pass_rule [OF z, of 3 insertionSort]
  obtain t where t: "minimax insertionSort 3 s True 3 (- int (boardSize * boardSize)) (int (boardSize * boardSize))
                = (score s, Some t)" "\<forall>pos < boardSize * boardSize. get t pos = get s pos"
      "whiteMoves t = (\<not> whiteMoves s)" "score t = score s"
    by auto
  have "get t 24 = Black" "get t 0 = Empty" using t(2) g by simp_all
  then show ?thesis
    unfolding s_def [symmetric] using z t(1,3,4) w sc by (auto simp del: minimax.simps)
qed

section \<open>The counts and the cells\<close>

lemma get_spawn_pos:
  assumes "i < 7" "j < 7" "q < 49"
  shows "get (spawn s i j) q =
     (if q = i * 7 + j then movingPlayer s
      else if q \<in> set (guarded (around i j)) \<and> get s q = otherPlayer s then movingPlayer s
      else get s q)"
proof -
  have "get (spawn s i j) q =
        (if q \<in> set (guarded (around i j)) \<and> get (placed s i j) q = otherPlayer s
         then movingPlayer s else get (placed s i j) q)"
    unfolding spawn_captures [OF assms(1,2)]
    by (rule get_captures [OF guardedInRange_around [OF assms(1,2)] assms(3) movingPlayer_neq_otherPlayer])
  then show ?thesis
    using movingPlayer_neq_otherPlayer [of s]
    unfolding get_placed [OF assms] by auto
qed

lemma recount_fold:
  "fold (\<lambda>i (w, b). let v = get s i in
            if v = Black then (w, b + 1) else if v = White then (w + 1, b) else (w, b)) xs (w0, b0) =
     (w0 + int (length (filter (\<lambda>p. get s p = White) xs)),
      b0 + int (length (filter (\<lambda>p. get s p = Black) xs)))"
  by (induction xs arbitrary: w0 b0) (simp_all add: Let_def)

lemma recount_countCells: "recount s = (int (countCells s White), int (countCells s Black))"
  unfolding recount_def countCells_def recount_fold by simp

lemma scoreAssertsHold_countsMatch: "scoreAssertsHold s = countsMatch s"
  by (auto simp add: scoreAssertsHold_def countsMatch_def recount_countCells)

lemma count_partition:
  "length (filter (\<lambda>p. f p = Empty) xs) + length (filter (\<lambda>p. f p = White) xs) +
   length (filter (\<lambda>p. f p = Black) xs) + length (filter (\<lambda>p. f p = Unused) xs) = length xs"
proof (induction xs)
  case Nil
  then show ?case by simp
next
  case (Cons x xs)
  then show ?case by (cases "f x") simp_all
qed

lemma countCells_total:
  "countCells s Empty + countCells s White + countCells s Black + countCells s Unused = 49"
  unfolding countCells_def using count_partition [of "get s" "[0..<49]"] by simp

lemma countCells_zero: "(countCells s e = 0) = (\<forall>p<49. get s p \<noteq> e)"
  by (auto simp add: countCells_def filter_empty_conv)

lemma unused_setEntry:
  "countCells s Unused = 0 \<Longrightarrow> p < 49 \<Longrightarrow> v \<noteq> Unused \<Longrightarrow> countCells (setEntry s p v) Unused = 0"
  by (simp add: countCells_zero get_setEntry)

lemma unused_spawn:
  "countCells s Unused = 0 \<Longrightarrow> i < 7 \<Longrightarrow> j < 7 \<Longrightarrow> countCells (spawn s i j) Unused = 0"
  by (simp add: countCells_zero get_spawn_pos movingPlayer_def)

lemma unused_switchPlayerTurn:
  "countCells s Unused = 0 \<Longrightarrow> countCells (switchPlayerTurn s) Unused = 0"
  by (simp add: countCells_zero get_switchPlayerTurn)

lemma unused_successor:
  assumes "countCells s Unused = 0" "t \<in> set (snd (generateStatuses s))"
  shows "countCells t Unused = 0"
  using assms(2)
  by (rule successor_cases) (simp_all add: unused_spawn unused_setEntry assms(1))

lemma countCells_initial:
  "countCells initial White = 2" "countCells initial Black = 2" "countCells initial Unused = 0"
  by (simp_all add: countCells_def get_initial upt_rec)

lemma countsMatch_initial: "countsMatch initial"
  by (simp add: countsMatch_def countCells_initial scores_initial)

lemma reachable_invariant: "reachable s \<Longrightarrow> countsMatch s \<and> countCells s Unused = 0"
proof (induction rule: reachable.induct)
  case start
  show ?case by (simp add: countsMatch_initial countCells_initial)
next
  case (move s t)
  then show ?case using countsMatch_successor unused_successor by blast
next
  case (pass s)
  then show ?case by (simp add: countsMatch_switchPlayerTurn unused_switchPlayerTurn)
qed

lemma reachable_counts:
  assumes "reachable s"
  shows "whiteScore s + blackScore s + int (countCells s Empty) = int (boardSize * boardSize)"
    "whiteScore s = int (countCells s White)" "blackScore s = int (countCells s Black)"
proof -
  from reachable_invariant [OF assms]
  have m: "countsMatch s" and u: "countCells s Unused = 0" by simp_all
  show "whiteScore s = int (countCells s White)" "blackScore s = int (countCells s Black)"
    using m by (simp_all add: countsMatch_def)
  then show "whiteScore s + blackScore s + int (countCells s Empty) = int (boardSize * boardSize)"
    using countCells_total [of s] u by simp
qed

text \<open>
  Claim C5, as the program has it. On every status reachable from the starting position
  by generated moves and forced passes, the two counts and the number of Empty cells add
  up to \<open>N\<^sup>2\<close>, and each count is the number of cells of its colour. \<open>set\<close> keeps the counts
  equal to the numbers of cells for every index on the board; \<open>spawn\<close> keeps them equal
  when the cell it is given is Empty, which is how \<open>generateStatuses\<close> calls it.
\<close>

theorem counts_invariant:
  "(reachable s \<longrightarrow>
      whiteScore s + blackScore s + int (countCells s Empty) = int (boardSize * boardSize) \<and>
      whiteScore s = int (countCells s White) \<and>
      blackScore s = int (countCells s Black)) \<and>
   (countsMatch s \<and> pos < boardSize * boardSize \<longrightarrow> countsMatch (setEntry s pos v)) \<and>
   (countsMatch s \<and> i < boardSize \<and> j < boardSize \<and> get s (i * boardSize + j) = Empty \<longrightarrow>
      countsMatch (spawn s i j))"
  using reachable_counts [of s] countsMatch_setEntry [of s pos v] countsMatch_spawn [of s i j]
  by simp

theorem counts_invariant_witness:
  "reachable (spawn initial 0 1) \<and>
   whiteScore (spawn initial 0 1) + blackScore (spawn initial 0 1) +
     int (countCells (spawn initial 0 1) Empty) = 49 \<and>
   whiteScore (spawn initial 0 1) = int (countCells (spawn initial 0 1) White) \<and>
   blackScore (spawn initial 0 1) = int (countCells (spawn initial 0 1) Black) \<and>
   countsMatch initial \<and> countsMatch (setEntry initial 0 Empty) \<and>
   get initial (0 * 7 + 1) = Empty \<and> countsMatch (spawn initial 0 1)"
proof -
  have r: "reachable (spawn initial 0 1)"
    by (rule reachable.move [OF reachable.start]) (simp add: generated_initial)
  have e: "get initial (0 * 7 + 1) = Empty" by (simp add: get_initial)
  show ?thesis
    using r e countsMatch_initial
      counts_invariant [of "spawn initial 0 1" 0 Empty 0 1]
      counts_invariant [of initial 0 Empty 0 1]
    by simp
qed

text \<open>
  \<open>spawn\<close> on an occupied cell: it counts a piece although no cell changes colour. From the
  starting position, \<open>spawn(0, 0)\<close> leaves two White cells and a White count of three.
\<close>

theorem spawn_occupied_counterexample:
  "reachable initial \<and> countsMatch initial \<and> get initial (0 * boardSize + 0) = White \<and>
   whiteScore (spawn initial 0 0) = 3 \<and> countCells (spawn initial 0 0) White = 2 \<and>
   \<not> countsMatch (spawn initial 0 0)"
proof -
  have g: "get (spawn initial 0 0) q = get initial q" if "q < 49" for q
    using that
    by (simp add: get_spawn_pos movingPlayer_initial otherPlayer_initial get_initial
          around_def guarded_def)
  have c: "countCells (spawn initial 0 0) White = countCells initial White"
    by (rule countCells_cong) (rule g)
  have n: "cellsAtDistance 1 0 0 = [(0, 1), (1, 0), (1, 1)]"
    by code_simp
  have k: "capturedBy initial 0 0 = 0"
    unfolding capturedBy_def n
    by (simp add: otherPlayer_initial holds_def cellIndex_def get_initial)
  have w: "whiteScore (spawn initial 0 0) = 3"
    by (simp add: whiteScore_spawn whiteMoves_initial scores_initial k)
  show ?thesis
    using c w
    by (simp add: reachable.start countsMatch_initial [unfolded countsMatch_def] get_initial
          countCells_initial countsMatch_def)
qed

section \<open>The first move\<close>

lemma capturedBy_around:
  "i < 7 \<Longrightarrow> j < 7 \<Longrightarrow>
     capturedBy s i j = length (filter (\<lambda>p. get s p = otherPlayer s) (guarded (around i j)))"
  by (simp add: guarded_around capturedBy_def filter_map comp_def holds_def [abs_def])

lemma minimax_leaf: "minimax srt depth s wantNext 0 alpha beta = (score s, None)"
  by simp

lemma get_opened:
  "p < 49 \<Longrightarrow> q < 49 \<Longrightarrow> get (setEntry initial p Empty) q = (if q = p then Empty else get initial q)"
  by (auto simp add: get_setEntry)

lemma whiteMoves_opened: "p < 49 \<Longrightarrow> whiteMoves (setEntry initial p Empty)"
  by (simp add: whiteMoves_setEntry whiteMoves_initial)

lemma scores_opened:
  "p < 49 \<Longrightarrow> whiteScore (setEntry initial p Empty) = 2 - (if get initial p = White then 1 else 0)"
  "p < 49 \<Longrightarrow> blackScore (setEntry initial p Empty) = 2 - (if get initial p = Black then 1 else 0)"
  by (simp_all add: whiteScore_setEntry blackScore_setEntry scores_initial)

lemma scores_first:
  "map score (snd (generateStatuses initial)) = [1, 0, 1, 1, 0, 0, 0, 0, 0, 0, 0, 0, 1, 1, 0, 1]"
  by (simp add: generated_initial jumpCopy_def score_def whiteScore_spawn blackScore_spawn
        capturedBy_around around_def guarded_def get_opened whiteMoves_opened scores_opened get_initial whiteMoves_initial
        scores_initial otherPlayer_def)


lemma first_move:
  "minimax srt 1 initial True 1 (- 49) 49 = (1, Some (spawn initial 0 1))"
proof -
  note sc = scores_first [unfolded generated_initial, simplified]
  show ?thesis
    using sc by (simp add: generated_initial Let_def whiteMoves_initial)
qed


lemma changed_first_move:
  "filter (\<lambda>p. get (spawn initial 0 1) p = Empty \<and> get initial p \<noteq> Empty) [0..<49] = []"
  "filter (\<lambda>p. get initial p = Empty \<and> get (spawn initial 0 1) p \<noteq> Empty) [0..<49] = [1]"
  by (simp_all add: upt_rec get_spawn_pos get_initial movingPlayer_initial otherPlayer_initial
        around_def guarded_def)

text \<open>
  Claim C8, as the program has it. From the starting position (White on \<open>(0,0)\<close> and
  \<open>(6,6)\<close>, Black on \<open>(0,6)\<close> and \<open>(6,0)\<close>, White to move) the search of depth 1 reports
  the spawn on \<open>(0,1)\<close>, next to White's corner \<open>(0,0)\<close>: no cell is vacated and cell 1 is
  the only cell filled. The value returned is 1, the White count minus the Black count
  after that move. Jumps are legal in the starting position: the jump from \<open>(0,0)\<close> to
  \<open>(0,2)\<close> is generated, and it scores 0, less than the spawn.
\<close>

theorem first_move_is_spawn:
  "get initial (0 * boardSize + 0) = White \<and> get initial (6 * boardSize + 6) = White \<and>
   get initial (0 * boardSize + 6) = Black \<and> get initial (6 * boardSize + 0) = Black \<and>
   whiteMoves initial \<and>
   minimax srt 1 initial True 1 (- int (boardSize * boardSize)) (int (boardSize * boardSize)) =
     (1, Some (spawn initial 0 1)) \<and>
   chebyshev 0 0 0 1 = 1 \<and>
   filter (\<lambda>p. get (spawn initial 0 1) p = Empty \<and> get initial p \<noteq> Empty)
     [0..<boardSize * boardSize] = [] \<and>
   filter (\<lambda>p. get initial p = Empty \<and> get (spawn initial 0 1) p \<noteq> Empty)
     [0..<boardSize * boardSize] = [0 * boardSize + 1] \<and>
   whiteScore (spawn initial 0 1) - blackScore (spawn initial 0 1) = 1 \<and>
   jumpCopy initial (0 * boardSize + 0) 0 2 \<in> set (snd (generateStatuses initial)) \<and>
   score (jumpCopy initial (0 * boardSize + 0) 0 2) = 0"
proof -
  note sc = scores_first [unfolded generated_initial, simplified]
  have m: "minimax srt 1 initial True 1 (- int (boardSize * boardSize)) (int (boardSize * boardSize)) =
     (1, Some (spawn initial 0 1))"
    using first_move [of srt] by simp
  have d: "whiteScore (spawn initial 0 1) - blackScore (spawn initial 0 1) = 1"
    by (simp add: whiteScore_spawn blackScore_spawn capturedBy_around around_def guarded_def
          get_initial whiteMoves_initial scores_initial otherPlayer_def)
  have j: "jumpCopy initial (0 * boardSize + 0) 0 2 \<in> set (snd (generateStatuses initial))"
    by (simp add: generated_initial)
  have c: "chebyshev 0 0 0 1 = 1" by (simp add: chebyshev_def)
  show ?thesis
    using m d j c sc changed_first_move
    by (simp add: get_initial whiteMoves_initial del: minimax.simps)
qed

theorem first_move_is_spawn_witness:
  "minimax insertionSort 1 initial True 1 (- 49) 49 = (1, Some (spawn initial 0 1)) \<and>
   whiteScore (spawn initial 0 1) - blackScore (spawn initial 0 1) = 1"
  using first_move_is_spawn [of insertionSort] by (simp del: minimax.simps)

text \<open>
  A jump is legal on the first move: White's piece on \<open>(0,0)\<close> is at Chebyshev distance 2
  from the Empty cell \<open>(0,2)\<close>, and the jump is among the generated statuses.
\<close>

theorem first_move_jump_counterexample:
  "get initial (0 * boardSize + 0) = movingPlayer initial \<and>
   get initial (0 * boardSize + 2) = Empty \<and>
   chebyshev 0 2 0 0 = 2 \<and>
   get (spawn (setEntry initial (0 * boardSize + 0) Empty) 0 2) (0 * boardSize + 0) = Empty \<and>
   spawn (setEntry initial (0 * boardSize + 0) Empty) 0 2 \<in> set (legalSuccessors initial) \<and>
   spawn (setEntry initial (0 * boardSize + 0) Empty) 0 2 \<in> set (snd (generateStatuses initial))"
proof -
  have j: "spawn (setEntry initial 0 Empty) 0 2 \<in> set (snd (generateStatuses initial))"
    by (simp add: generated_initial jumpCopy_def)
  then have l: "spawn (setEntry initial 0 Empty) 0 2 \<in> set (legalSuccessors initial)"
    by (simp add: generateStatuses_eq)
  have g: "get (spawn (setEntry initial 0 Empty) 0 2) 0 = Empty"
    by (simp add: get_spawn_pos get_opened around_def guarded_def)
  show ?thesis
    using j l g by (simp add: get_initial movingPlayer_initial chebyshev_def)
qed

section \<open>The loop of the search against the exhaustive value\<close>

lemma Max_map_Cons:
  "rest \<noteq> [] \<Longrightarrow> Max (set (map f (x # rest))) = max (f x) (Max (set (map f rest)))"
  by simp

lemma Min_map_Cons:
  "rest \<noteq> [] \<Longrightarrow> Min (set (map f (x # rest))) = min (f x) (Min (set (map f rest)))"
  by simp

text \<open>One step of the maximising loop, from the facts about the child and about the rest.\<close>

lemma max_step_last:
  fixes a b ns r mx :: int
  assumes "withinWindow a b r mx" "ns \<le> a" "a < b" "r < b"
  shows "withinWindow a b (max ns r) mx \<and> ns \<le> max ns r"
  using assms unfolding withinWindow_def by (auto simp add: max_def)

lemma max_step_cut:
  fixes a b ns r mx R :: int
  assumes "withinWindow a b r mx" "ns \<le> a" "a < b" "b \<le> r" "mx \<le> R"
  shows "withinWindow a b (max ns r) R \<and> ns \<le> max ns r"
  using assms unfolding withinWindow_def by (auto simp add: max_def)

lemma max_step_more:
  fixes a b ns r mx v R' :: int
  assumes "withinWindow a b r mx" "ns \<le> a" "a < b" "r < b"
    "withinWindow (max a r) b v R'" "max ns r \<le> v"
  shows "withinWindow a b v (max mx R') \<and> ns \<le> v"
  using assms unfolding withinWindow_def by (auto simp add: max_def split: if_splits)

lemma min_step_last:
  fixes a b ns r mx :: int
  assumes "withinWindow a b r mx" "b \<le> ns" "a < b" "a < r"
  shows "withinWindow a b (min ns r) mx \<and> min ns r \<le> ns"
  using assms unfolding withinWindow_def by (auto simp add: min_def)

lemma min_step_cut:
  fixes a b ns r mx R :: int
  assumes "withinWindow a b r mx" "b \<le> ns" "a < b" "r \<le> a" "R \<le> mx"
  shows "withinWindow a b (min ns r) R \<and> min ns r \<le> ns"
  using assms unfolding withinWindow_def by (auto simp add: min_def)

lemma min_step_more:
  fixes a b ns r mx v R' :: int
  assumes "withinWindow a b r mx" "b \<le> ns" "a < b" "a < r"
    "withinWindow a (min b r) v R'" "v \<le> min ns r"
  shows "withinWindow a b v (min mx R') \<and> v \<le> ns"
  using assms unfolding withinWindow_def by (auto simp add: min_def split: if_splits)


lemma withinWindow_refl: "withinWindow a b v v"
  by (simp add: withinWindow_def)

lemma generated_length: "fst (generateStatuses s) = length (snd (generateStatuses s))"
  by (simp add: generateStatuses_eq)

lemma exhaustive_pos:
  "0 < level \<Longrightarrow>
   exhaustive level s =
     (if snd (generateStatuses s) = [] then score s
      else if whiteMoves s then Max (set (map (exhaustive (level - 1)) (snd (generateStatuses s))))
      else Min (set (map (exhaustive (level - 1)) (snd (generateStatuses s)))))"
  by (cases level) (simp_all add: Let_def)

lemma permSorter_set: "permSorter srt \<Longrightarrow> set (srt cmp xs) = set xs"
  unfolding permSorter_def by (metis set_mset_mset)

lemma permSorter_Nil: "permSorter srt \<Longrightarrow> (srt cmp xs = []) = (xs = [])"
  unfolding permSorter_def by (metis mset_zero_iff)

lemma window_main:
  "permSorter srt \<Longrightarrow> - 49 \<le> alpha \<Longrightarrow> alpha < beta \<Longrightarrow> beta \<le> 49 \<Longrightarrow>
     withinWindow alpha beta (fst (minimax srt depth status wantNext level alpha beta))
       (exhaustive level status)"
  and
  "permSorter srt' \<Longrightarrow> 0 < level' \<Longrightarrow> - 49 \<le> alpha' \<Longrightarrow> alpha' < beta' \<Longrightarrow> beta' \<le> 49 \<Longrightarrow>
   ms \<noteq> [] \<Longrightarrow>
     (maximizing \<longrightarrow> newScore \<le> alpha' \<longrightarrow>
        withinWindow alpha' beta'
          (fst (descend srt' depth' level' maximizing ms i alpha' beta' newScore newIndex))
          (Max (set (map (exhaustive (level' - 1)) ms))) \<and>
        newScore \<le> fst (descend srt' depth' level' maximizing ms i alpha' beta' newScore newIndex)) \<and>
     (\<not> maximizing \<longrightarrow> beta' \<le> newScore \<longrightarrow>
        withinWindow alpha' beta'
          (fst (descend srt' depth' level' maximizing ms i alpha' beta' newScore newIndex))
          (Min (set (map (exhaustive (level' - 1)) ms))) \<and>
        fst (descend srt' depth' level' maximizing ms i alpha' beta' newScore newIndex) \<le> newScore)"
proof (induction srt depth status wantNext level alpha beta
         and srt' depth' level' maximizing ms i alpha' beta' newScore newIndex
       rule: minimax_descend.induct)
  case (1 srt depth status wantNext level alpha beta)
  show ?case
  proof (cases "level = 0")
    case True
    then show ?thesis by (simp add: withinWindow_refl)
  next
    case False
    then have pos: "0 < level" by simp
    define moves where "moves = snd (generateStatuses status)"
    show ?thesis
    proof (cases "moves = []")
      case True
      then have "fst (generateStatuses status) = 0"
        by (simp add: generated_length moves_def)
      then show ?thesis
        using True pos
        by (simp add: minimax_no_moves exhaustive_pos moves_def withinWindow_refl del: minimax.simps)
    next
      case nonempty: False
      then have len: "fst (generateStatuses status) \<noteq> 0"
        by (simp add: generated_length moves_def)
      define maximizing where "maximizing = whiteMoves status"
      define moves' where "moves' = (if level \<noteq> depth then srt (pred maximizing) moves else moves)"
      define ns where "ns = (if maximizing then - int (boardSize * boardSize) else int (boardSize * boardSize))"
      have set_eq: "set moves' = set moves"
        using "1.prems"(1) by (simp add: moves'_def permSorter_set)
      have ne: "moves' \<noteq> []"
        using "1.prems"(1) nonempty by (simp add: moves'_def permSorter_Nil)
      have res: "fst (minimax srt depth status wantNext level alpha beta) =
                 fst (descend srt depth level maximizing moves' 0 alpha beta ns 0)"
        using False len
        by (simp add: Let_def moves_def maximizing_def moves'_def ns_def)
      have ex: "exhaustive level status =
                (if maximizing then Max (set (map (exhaustive (level - 1)) moves'))
                 else Min (set (map (exhaustive (level - 1)) moves')))"
        using nonempty set_eq
        by (simp add: exhaustive_pos [OF pos] moves_def [symmetric] maximizing_def)
      have ih: "(maximizing \<longrightarrow> ns \<le> alpha \<longrightarrow>
          withinWindow alpha beta (fst (descend srt depth level maximizing moves' 0 alpha beta ns 0))
            (Max (set (map (exhaustive (level - 1)) moves'))) \<and>
          ns \<le> fst (descend srt depth level maximizing moves' 0 alpha beta ns 0)) \<and>
        (\<not> maximizing \<longrightarrow> beta \<le> ns \<longrightarrow>
          withinWindow alpha beta (fst (descend srt depth level maximizing moves' 0 alpha beta ns 0))
            (Min (set (map (exhaustive (level - 1)) moves'))) \<and>
          fst (descend srt depth level maximizing moves' 0 alpha beta ns 0) \<le> ns)"
        by (rule "1.IH" [OF False refl moves_def len maximizing_def moves'_def ns_def
              "1.prems"(1) pos "1.prems"(2,3,4) ne])
      show ?thesis
        unfolding res ex using ih "1.prems"(2,4) by (simp add: ns_def)
    qed
  qed
next
  case (2 srt depth level maximizing i alpha beta newScore newIndex)
  then show ?case by simp
next
  case (3 srt depth level maximizing m rest i alpha beta newScore newIndex)
  define r where "r = fst (minimax srt depth m False (level - 1) alpha beta)"
  define mx where "mx = exhaustive (level - 1) m"
  have child: "withinWindow alpha beta r mx"
    unfolding r_def mx_def by (rule "3.IH"(1) [OF "3.prems"(1,3,4,5)])
  show ?case
  proof (intro conjI impI)
    assume mz: maximizing and inv: "newScore \<le> alpha"
    define ns' where "ns' = (if newScore < r then r else newScore)"
    define ni' where "ni' = (if newScore < r then i else newIndex)"
    define a' where "a' = (if alpha < r then r else alpha)"
    have ns_max: "ns' = max newScore r" and a_max: "a' = max alpha r"
      by (simp_all add: ns'_def a'_def max_def)
    have unfold: "fst (descend srt depth level maximizing (m # rest) i alpha beta newScore newIndex) =
        (if beta \<le> a' then ns'
         else fst (descend srt depth level maximizing rest (i + 1) a' beta ns' ni'))"
      using mz by (simp add: Let_def r_def ns'_def ni'_def a'_def del: minimax.simps)
    have goal: "withinWindow alpha beta
          (fst (descend srt depth level maximizing (m # rest) i alpha beta newScore newIndex))
          (Max (set (map (exhaustive (level - 1)) (m # rest)))) \<and>
        newScore \<le> fst (descend srt depth level maximizing (m # rest) i alpha beta newScore newIndex)"
    proof (cases "beta \<le> a'")
      case True
      then have "beta \<le> r" using "3.prems"(4) by (simp add: a'_def split: if_splits)
      moreover have "mx \<le> Max (set (map (exhaustive (level - 1)) (m # rest)))"
        by (simp add: mx_def)
      ultimately show ?thesis
        unfolding unfold using True max_step_cut [OF child inv "3.prems"(4)]
        by (simp add: ns_max)
    next
      case nocut: False
      then have rb: "r < beta" by (simp add: a'_def split: if_splits)
      show ?thesis
      proof (cases "rest = []")
        case True
        then show ?thesis
          unfolding unfold using nocut max_step_last [OF child inv "3.prems"(4) rb]
          by (simp add: ns_max mx_def)
      next
        case more: False
        have a1: "- 49 \<le> a'" using "3.prems"(3) by (simp add: a'_def)
        have a2: "a' < beta" using nocut by simp
        have a3: "ns' \<le> a'" using inv by (simp add: ns'_def a'_def)
        have ih: "withinWindow a' beta
              (fst (descend srt depth level maximizing rest (i + 1) a' beta ns' ni'))
              (Max (set (map (exhaustive (level - 1)) rest))) \<and>
            ns' \<le> fst (descend srt depth level maximizing rest (i + 1) a' beta ns' ni')"
          using "3.IH"(2) [OF r_def mz ns'_def ni'_def a'_def nocut "3.prems"(1,2) a1 a2 "3.prems"(5) more]
            mz a3 by blast
        show ?thesis
          unfolding unfold Max_map_Cons [OF more]
          using nocut max_step_more [OF child inv "3.prems"(4) rb, of _ "Max (set (map (exhaustive (level - 1)) rest))"]
            ih
          by (simp add: ns_max a_max mx_def)
      qed
    qed
    from goal show "withinWindow alpha beta
          (fst (descend srt depth level maximizing (m # rest) i alpha beta newScore newIndex))
          (Max (set (map (exhaustive (level - 1)) (m # rest))))" ..
    from goal show "newScore \<le> fst (descend srt depth level maximizing (m # rest) i alpha beta newScore newIndex)" ..
  next
    assume mz: "\<not> maximizing" and inv: "beta \<le> newScore"
    define ns' where "ns' = (if r < newScore then r else newScore)"
    define ni' where "ni' = (if r < newScore then i else newIndex)"
    define b' where "b' = (if r < beta then r else beta)"
    have ns_min: "ns' = min newScore r" and b_min: "b' = min beta r"
      by (simp_all add: ns'_def b'_def min_def)
    have unfold: "fst (descend srt depth level maximizing (m # rest) i alpha beta newScore newIndex) =
        (if b' \<le> alpha then ns'
         else fst (descend srt depth level maximizing rest (i + 1) alpha b' ns' ni'))"
      using mz by (simp add: Let_def r_def ns'_def ni'_def b'_def del: minimax.simps)
    have goal: "withinWindow alpha beta
          (fst (descend srt depth level maximizing (m # rest) i alpha beta newScore newIndex))
          (Min (set (map (exhaustive (level - 1)) (m # rest)))) \<and>
        fst (descend srt depth level maximizing (m # rest) i alpha beta newScore newIndex) \<le> newScore"
    proof (cases "b' \<le> alpha")
      case True
      then have "r \<le> alpha" using "3.prems"(4) by (simp add: b'_def split: if_splits)
      moreover have "Min (set (map (exhaustive (level - 1)) (m # rest))) \<le> mx"
        by (simp add: mx_def)
      ultimately show ?thesis
        unfolding unfold using True min_step_cut [OF child inv "3.prems"(4)]
        by (simp add: ns_min)
    next
      case nocut: False
      then have rb: "alpha < r" by (simp add: b'_def split: if_splits)
      show ?thesis
      proof (cases "rest = []")
        case True
        then show ?thesis
          unfolding unfold using nocut min_step_last [OF child inv "3.prems"(4) rb]
          by (simp add: ns_min mx_def)
      next
        case more: False
        have b1: "b' \<le> 49" using "3.prems"(5) by (simp add: b'_def)
        have b2: "alpha < b'" using nocut by simp
        have b3: "b' \<le> ns'" using inv by (simp add: ns'_def b'_def)
        have ih: "withinWindow alpha b'
              (fst (descend srt depth level maximizing rest (i + 1) alpha b' ns' ni'))
              (Min (set (map (exhaustive (level - 1)) rest))) \<and>
            fst (descend srt depth level maximizing rest (i + 1) alpha b' ns' ni') \<le> ns'"
          using "3.IH"(3) [OF r_def mz ns'_def ni'_def b'_def nocut "3.prems"(1,2,3) b2 b1 more]
            mz b3 by blast
        show ?thesis
          unfolding unfold Min_map_Cons [OF more]
          using nocut min_step_more [OF child inv "3.prems"(4) rb, of _ "Min (set (map (exhaustive (level - 1)) rest))"]
            ih
          by (simp add: ns_min b_min mx_def)
      qed
    qed
    from goal show "withinWindow alpha beta
          (fst (descend srt depth level maximizing (m # rest) i alpha beta newScore newIndex))
          (Min (set (map (exhaustive (level - 1)) (m # rest))))" ..
    from goal show "fst (descend srt depth level maximizing (m # rest) i alpha beta newScore newIndex) \<le> newScore" ..
  qed
qed

section \<open>The search returns the exhaustive value\<close>

lemma score_range: "countsMatch s \<Longrightarrow> - 49 \<le> score s \<and> score s \<le> 49"
proof -
  assume "countsMatch s"
  then have "whiteScore s = int (countCells s White)" "blackScore s = int (countCells s Black)"
    by (simp_all add: countsMatch_def)
  moreover have "countCells s White + countCells s Black \<le> 49"
    using countCells_total [of s] by simp
  ultimately show ?thesis by (simp add: score_def)
qed

lemma exhaustive_range:
  "countsMatch s \<Longrightarrow> - 49 \<le> exhaustive d s \<and> exhaustive d s \<le> 49"
proof (induction d arbitrary: s)
  case 0
  then show ?case by (simp add: score_range)
next
  case (Suc d)
  define moves where "moves = snd (generateStatuses s)"
  show ?case
  proof (cases "moves = []")
    case True
    then show ?thesis using Suc.prems by (simp add: moves_def score_range Let_def)
  next
    case False
    define vals where "vals = set (map (exhaustive d) moves)"
    have fin: "finite vals" "vals \<noteq> {}" using False by (simp_all add: vals_def)
    have all: "- 49 \<le> v \<and> v \<le> 49" if "v \<in> vals" for v
    proof -
      from that obtain t where t: "t \<in> set moves" "v = exhaustive d t"
        by (auto simp add: vals_def)
      from t(1) have "countsMatch t"
        using countsMatch_successor [OF Suc.prems] by (simp add: moves_def)
      from Suc.IH [OF this] t(2) show ?thesis by simp
    qed
    have "Max vals \<in> vals" "Min vals \<in> vals"
      using fin by (simp_all add: Max_in Min_in)
    then have "- 49 \<le> Max vals \<and> Max vals \<le> 49" "- 49 \<le> Min vals \<and> Min vals \<le> 49"
      using all by blast+
    moreover have "exhaustive (Suc d) s = (if whiteMoves s then Max vals else Min vals)"
      using False by (simp add: Let_def moves_def vals_def)
    ultimately show ?thesis by simp
  qed
qed

lemma withinWindow_full:
  "withinWindow (- 49) 49 v m \<Longrightarrow> - 49 \<le> m \<Longrightarrow> m \<le> 49 \<Longrightarrow> v = m"
  unfolding withinWindow_def by linarith

lemma mset_insertBy: "mset (insertBy cmp x xs) = add_mset x (mset xs)"
  by (induction xs) simp_all

lemma permSorter_insertionSort: "permSorter insertionSort"
proof -
  have "mset (insertionSort cmp xs) = mset xs" for cmp :: "Status \<Rightarrow> Status \<Rightarrow> bool" and xs
    by (induction xs) (simp_all add: insertionSort_def mset_insertBy)
  then show ?thesis by (simp add: permSorter_def)
qed

lemma search_exhaustive:
  assumes "permSorter srt" "countsMatch s"
  shows "fst (minimax srt depth s wantNext depth (- 49) 49) = exhaustive depth s"
proof -
  have "withinWindow (- 49) 49 (fst (minimax srt depth s wantNext depth (- 49) 49)) (exhaustive depth s)"
    by (rule window_main(1) [OF assms(1)]) simp_all
  then show ?thesis
    using exhaustive_range [OF assms(2), of depth] by (intro withinWindow_full) simp_all
qed

text \<open>
  Claim C1. For every status whose counts are the numbers of its White and Black cells
  (the invariant of a GameState) and every depth, the value returned by the search with
  its cutoffs and its sorting, started as the program starts it with the window
  \<open>(-N\<^sup>2, N\<^sup>2)\<close>, is the value of the exhaustive minimax of that depth. The sorting
  function is any function that returns a permutation of its input, as \<open>std::sort\<close> does.
\<close>

theorem alphabeta_value:
  assumes "permSorter srt" "countsMatch s"
  shows "fst (minimax srt depth s wantNext depth
                (- int (boardSize * boardSize)) (int (boardSize * boardSize))) =
         exhaustive depth s"
  using search_exhaustive [OF assms, of depth wantNext] by (simp del: minimax.simps)

theorem alphabeta_value_witness:
  "permSorter insertionSort \<and> countsMatch initial \<and>
   fst (minimax insertionSort 3 initial True 3 (- 49) 49) = exhaustive 3 initial \<and>
   fst (minimax insertionSort 1 initial True 1 (- 49) 49) = exhaustive 1 initial \<and>
   exhaustive 1 initial = 1"
proof -
  have a: "fst (minimax insertionSort 3 initial True 3 (- 49) 49) = exhaustive 3 initial"
    using alphabeta_value [OF permSorter_insertionSort countsMatch_initial, of 3 True]
    by (simp del: minimax.simps)
  have b: "fst (minimax insertionSort 1 initial True 1 (- 49) 49) = exhaustive 1 initial"
    using alphabeta_value [OF permSorter_insertionSort countsMatch_initial, of 1 True]
    by (simp del: minimax.simps)
  have "exhaustive 1 initial = 1"
    using b first_move [of insertionSort] by (simp del: minimax.simps)
  then show ?thesis
    using a b permSorter_insertionSort countsMatch_initial by blast
qed

end
